theory Spec2Isabelle
  imports Main "HOL-Library.Char_ord" "HOL-Library.List_Lexorder" "HOL-Library.Multiset"
begin

section \<open>Data model\<close>

text \<open>
  A Go \<^verbatim>\<open>string\<close> is a byte sequence; it is modelled as \<^typ>\<open>string\<close>, whose characters
  are bytes, and the comparison operators of Go on strings (bytewise lexicographic, a proper
  prefix being smaller) are the order of \<^verbatim>\<open>List_Lexorder\<close> over \<^verbatim>\<open>Char_ord\<close>.

  A Go \<^verbatim>\<open>[]byte\<close> is either \<^verbatim>\<open>nil\<close> or a (possibly empty) sequence of bytes; the
  two are kept apart because the signer tests \<^verbatim>\<open>key == nil\<close>.
\<close>

datatype byteslice = NilSlice | Slice "nat list"

fun len :: "byteslice \<Rightarrow> nat" where
  "len NilSlice = 0"
| "len (Slice bs) = length bs"

text \<open>
  A Go map that the code ranges over is modelled as the list of its entries in the order the
  \<^verbatim>\<open>range\<close> loop visits them. Go fixes no iteration order, so a statement about a map is
  proved for every such list. The keys of a Go map are pairwise distinct; where a statement
  needs this it says so with \<^const>\<open>distinct\<close>. Indexing is \<^const>\<open>map_of\<close>, and an
  assignment \<^verbatim>\<open>m[k] = v\<close> is \<open>assign\<close>.
\<close>

type_synonym ('k, 'v) gomap = "('k \<times> 'v) list"

fun assign :: "('k, 'v) gomap \<Rightarrow> 'k \<Rightarrow> 'v \<Rightarrow> ('k, 'v) gomap" where
  "assign [] k v = [(k, v)]"
| "assign ((k', v') # m) k v = (if k' = k then (k, v) # m else (k', v') # assign m k v)"

text \<open>The \<^verbatim>\<open>Data\<close> field of a \<^verbatim>\<open>corev1.Secret\<close>: a map that may be \<^verbatim>\<open>nil\<close>.\<close>

type_synonym secret_data = "(string, byteslice) gomap option"

section \<open>Key names and the key record (package jwt)\<close>

definition KeyPrefix :: string where
  "KeyPrefix = ''jwt-signing-key-''"

definition KeySizeBytes :: nat where
  "KeySizeBytes = 48"

definition HasPrefix :: "string \<Rightarrow> string \<Rightarrow> bool" where
  "HasPrefix s p = (take (length p) s = p)"

definition TrimPrefix :: "string \<Rightarrow> string \<Rightarrow> string" where
  "TrimPrefix s p = (if HasPrefix s p then drop (length p) s else s)"

text \<open>
  \<^verbatim>\<open>strconv.ParseInt(s, 10, 64)\<close>: an optional sign, then at least one decimal digit and
  nothing else; a value outside the signed 64-bit range is an error as well.
\<close>

definition is_digit :: "char \<Rightarrow> bool" where
  "is_digit c = (CHR ''0'' \<le> c \<and> c \<le> CHR ''9'')"

definition digit_val :: "char \<Rightarrow> int" where
  "digit_val c = int (of_char c) - 48"

definition digits_val :: "string \<Rightarrow> int" where
  "digits_val ds = foldl (\<lambda>n c. 10 * n + digit_val c) 0 ds"

definition ParseInt :: "string \<Rightarrow> int option" where
  "ParseInt s =
     (let neg = (s \<noteq> [] \<and> hd s = CHR ''-'');
          ds = (if s \<noteq> [] \<and> (hd s = CHR ''+'' \<or> hd s = CHR ''-'') then tl s else s)
      in if ds = [] \<or> \<not> list_all is_digit ds then None
         else let v = (if neg then - digits_val ds else digits_val ds)
              in if v < - (2 ^ 63) \<or> 2 ^ 63 - 1 < v then None else Some v)"

text \<open>\<^verbatim>\<open>fmt.Sprintf("%d", n)\<close> for a signed integer.\<close>

fun nat_digits :: "nat \<Rightarrow> string" where
  "nat_digits n =
     (if n < 10 then [char_of (48 + n)] else nat_digits (n div 10) @ [char_of (48 + n mod 10)])"

declare nat_digits.simps [simp del]

definition decimal :: "int \<Rightarrow> string" where
  "decimal i = (if i < 0 then CHR ''-'' # nat_digits (nat (- i)) else nat_digits (nat i))"

definition BuildKeyName :: "int \<Rightarrow> string" where
  "BuildKeyName timestamp = KeyPrefix @ decimal timestamp"

datatype key_name_error =
    NoPrefix        \<comment> \<open>key name ... does not have prefix ...\<close>
  | BadTimestamp    \<comment> \<open>failed to parse timestamp from ...\<close>

definition ParseKeyTimestamp :: "string \<Rightarrow> key_name_error + int" where
  "ParseKeyTimestamp keyName =
     (if \<not> HasPrefix keyName KeyPrefix then Inl NoPrefix
      else case ParseInt (TrimPrefix keyName KeyPrefix) of
             None \<Rightarrow> Inl BadTimestamp
           | Some timestamp \<Rightarrow> Inr timestamp)"

text \<open>
  \<^verbatim>\<open>ParseSigningKeysFromSecret\<close>. The loop state is the key map built so far, the latest
  timestamp (initially the zero value 0) and the latest kid (initially the empty string).
  The first prefixed entry whose name does not parse ends the loop with an error.
\<close>

datatype parse_error =
    SecretHasNoData                        \<comment> \<open>secret has no data\<close>
  | InvalidKeyFormat string key_name_error  \<comment> \<open>invalid key format <name>: ...\<close>
  | NoSigningKeysFound                     \<comment> \<open>no signing keys found in secret\<close>

fun parse_loop ::
  "(string \<times> byteslice) list \<Rightarrow> (string, byteslice) gomap \<times> int \<times> string \<Rightarrow>
   parse_error + (string, byteslice) gomap \<times> int \<times> string" where
  "parse_loop [] st = Inr st"
| "parse_loop ((name, v) # rest) (signingKeys, latestTimestamp, latestKid) =
     (if \<not> HasPrefix name KeyPrefix then parse_loop rest (signingKeys, latestTimestamp, latestKid)
      else case ParseKeyTimestamp name of
             Inl e \<Rightarrow> Inl (InvalidKeyFormat name e)
           | Inr timestamp \<Rightarrow>
               (let kid = TrimPrefix name KeyPrefix;
                    signingKeys' = assign signingKeys kid v
                in if timestamp > latestTimestamp
                   then parse_loop rest (signingKeys', timestamp, kid)
                   else parse_loop rest (signingKeys', latestTimestamp, latestKid)))"

definition ParseSigningKeysFromSecret ::
  "secret_data \<Rightarrow> parse_error + (string, byteslice) gomap \<times> string" where
  "ParseSigningKeysFromSecret secretData =
     (case secretData of
        None \<Rightarrow> Inl SecretHasNoData
      | Some entries \<Rightarrow>
          (case parse_loop entries ([], 0, '''') of
             Inl e \<Rightarrow> Inl e
           | Inr (signingKeys, latestTimestamp, latestKid) \<Rightarrow>
               if length signingKeys = 0 then Inl NoSigningKeysFound
               else Inr (signingKeys, latestKid)))"

section \<open>Time\<close>

text \<open>
  An instant (\<^verbatim>\<open>time.Time\<close>) is a count of nanoseconds, a \<^verbatim>\<open>time.Duration\<close> is a signed
  64-bit count of nanoseconds. \<^verbatim>\<open>t.Sub(u)\<close> is the difference, saturated at the least and
  the greatest duration, as in package \<^verbatim>\<open>time\<close>.
\<close>

definition minDuration :: int where
  "minDuration = - (2 ^ 63)"

definition maxDuration :: int where
  "maxDuration = 2 ^ 63 - 1"

definition time_sub :: "int \<Rightarrow> int \<Rightarrow> int" where
  "time_sub t u =
     (if t - u < minDuration then minDuration
      else if maxDuration < t - u then maxDuration
      else t - u)"

definition Second :: int where
  "Second = 1000000000"

section \<open>Tokens and the JWT library\<close>

text \<open>
  The signer calls \<^verbatim>\<open>github.com/golang-jwt/jwt/v5\<close>. The library is a dependency of the
  repository, not part of it; this section models the calls the signer makes. A token in
  compact serialization is modelled by its decoded content: the header fields the code
  reads, the claims and the signature. The HMAC-SHA384 function is a parameter \<open>hm\<close> of
  every operation that signs or verifies; nothing is assumed about it.
\<close>

record jwt_header =
  h_alg :: "string option"   \<comment> \<open>\<^verbatim>\<open>Header["alg"].(string)\<close>, \<open>None\<close> when absent or not a string\<close>
  h_kid :: "string option"   \<comment> \<open>\<^verbatim>\<open>Header["kid"].(string)\<close>, \<open>None\<close> when absent or not a string\<close>

text \<open>
  The claims of the repository, with the fields of the struct literal in
  \<^verbatim>\<open>GenerateToken\<close>: the registered claims (numeric dates in whole seconds) and the
  custom ones. The field \<^verbatim>\<open>Domain\<close> is called \<open>DomainName\<close> here.
\<close>

record Claims =
  ExpiresAt :: "int option"
  IssuedAt :: "int option"
  NotBefore :: "int option"
  Issuer :: string
  Audience :: "string list"
  Subject :: string
  User :: string
  Groups :: "string list"
  UID :: string
  Extra :: "(string \<times> string list) list"
  Path :: string
  DomainName :: string
  TokenType :: string
  SkipRefresh :: bool

record Token =
  Header :: jwt_header
  TokenClaims :: Claims
  Signature :: "nat list"

type_synonym hmac = "nat list \<Rightarrow> jwt_header \<times> Claims \<Rightarrow> nat list"

text \<open>\<^verbatim>\<open>jwt5.NewNumericDate\<close>: the instant truncated to the second.\<close>

definition NewNumericDate :: "int \<Rightarrow> int" where
  "NewNumericDate t = t div Second"

text \<open>The signing methods the library registers; \<^verbatim>\<open>GetSigningMethod\<close> knows no other.\<close>

definition signing_methods :: "string list" where
  "signing_methods =
     [''HS256'', ''HS384'', ''HS512'', ''RS256'', ''RS384'', ''RS512'',
      ''PS256'', ''PS384'', ''PS512'', ''ES256'', ''ES384'', ''ES512'',
      ''EdDSA'', ''none'']"

definition hmac_methods :: "string list" where
  "hmac_methods = [''HS256'', ''HS384'', ''HS512'']"

datatype keyfunc_error =
    UnexpectedSigningMethod    \<comment> \<open>unexpected signing method: ...\<close>
  | UnexpectedAlgorithm        \<comment> \<open>unexpected algorithm: ..., expected HS384\<close>
  | MissingKid                 \<comment> \<open>missing or invalid kid in token header\<close>
  | UnknownKeyID string        \<comment> \<open>unknown key ID: <kid>\<close>

datatype claim_error =
    TokenExpired | TokenNotValidYet | TokenRequiredClaimMissing
  | TokenInvalidAudience | TokenInvalidIssuer

datatype jwt_error =
    TokenMalformed
  | TokenUnverifiable "keyfunc_error option"
  | TokenSignatureInvalid
  | TokenInvalidClaims "claim_error list"

text \<open>The validator of the library, with the options the signer passes.\<close>

definition verifyExpiresAt :: "int \<Rightarrow> int \<Rightarrow> Claims \<Rightarrow> claim_error list" where
  "verifyExpiresAt leeway now c =
     (case ExpiresAt c of
        None \<Rightarrow> []
      | Some exp \<Rightarrow> if now < exp * Second + leeway then [] else [TokenExpired])"

definition verifyNotBefore :: "int \<Rightarrow> int \<Rightarrow> Claims \<Rightarrow> claim_error list" where
  "verifyNotBefore leeway now c =
     (case NotBefore c of
        None \<Rightarrow> []
      | Some nbf \<Rightarrow> if \<not> now < nbf * Second - leeway then [] else [TokenNotValidYet])"

definition verifyAudience :: "string \<Rightarrow> Claims \<Rightarrow> claim_error list" where
  "verifyAudience cmp c =
     (if length (Audience c) = 0 then [TokenRequiredClaimMissing]
      else if concat (Audience c) = '''' then [TokenRequiredClaimMissing]
      else if cmp \<in> set (Audience c) then [] else [TokenInvalidAudience])"

definition verifyIssuer :: "string \<Rightarrow> Claims \<Rightarrow> claim_error list" where
  "verifyIssuer cmp c =
     (if Issuer c = '''' then [TokenRequiredClaimMissing]
      else if Issuer c = cmp then [] else [TokenInvalidIssuer])"

definition Validate :: "string \<Rightarrow> string \<Rightarrow> int \<Rightarrow> int \<Rightarrow> Claims \<Rightarrow> claim_error list" where
  "Validate expectedIss expectedAud leeway now c =
     verifyExpiresAt leeway now c @ verifyNotBefore leeway now c
     @ (if expectedAud \<noteq> '''' then verifyAudience expectedAud c else [])
     @ (if expectedIss \<noteq> '''' then verifyIssuer expectedIss c else [])"

text \<open>
  \<^verbatim>\<open>Parser.ParseWithClaims\<close>. \<open>None\<close> stands for a string that is not three base64url
  segments of JSON. The steps and their order are the library's: the signing method is
  looked up, checked against \<open>validMethods\<close>, the key function runs, the signature is
  verified, the claims are validated.
\<close>

definition ParseWithClaims ::
  "hmac \<Rightarrow> (Token \<Rightarrow> keyfunc_error + nat list) \<Rightarrow> string \<Rightarrow> string \<Rightarrow> string list \<Rightarrow> int \<Rightarrow>
   int \<Rightarrow> Token option \<Rightarrow> jwt_error + Token" where
  "ParseWithClaims hm keyFunc expectedIss expectedAud validMethods leeway now tokenString =
     (case tokenString of
        None \<Rightarrow> Inl TokenMalformed
      | Some token \<Rightarrow>
          (case h_alg (Header token) of
             None \<Rightarrow> Inl (TokenUnverifiable None)
           | Some method \<Rightarrow>
               if method \<notin> set signing_methods then Inl (TokenUnverifiable None)
               else if method \<notin> set validMethods then Inl TokenSignatureInvalid
               else (case keyFunc token of
                       Inl e \<Rightarrow> Inl (TokenUnverifiable (Some e))
                     | Inr key \<Rightarrow>
                         if hm key (Header token, TokenClaims token) \<noteq> Signature token
                         then Inl TokenSignatureInvalid
                         else (case Validate expectedIss expectedAud leeway now (TokenClaims token) of
                                 [] \<Rightarrow> Inr token
                               | e # errs \<Rightarrow> Inl (TokenInvalidClaims (e # errs))))))"

section \<open>The signer (package jwt, type StandardSigner)\<close>

record StandardSigner =
  signingKeys :: "(string, byteslice) gomap"
  keyAddedTimes :: "(string, int) gomap"
  latestKid :: string
  newKeyUseDelay :: int
  issuer :: string
  audience :: string
  expiration :: int

definition NewStandardSigner :: "string \<Rightarrow> string \<Rightarrow> int \<Rightarrow> int \<Rightarrow> StandardSigner" where
  "NewStandardSigner iss aud exp delay =
     \<lparr>signingKeys = [], keyAddedTimes = [], latestKid = '''', newKeyUseDelay = delay,
      issuer = iss, audience = aud, expiration = exp\<rparr>"

text \<open>Indexing a map of byte slices: the zero value \<^verbatim>\<open>nil\<close> when the key is absent.\<close>

definition index :: "(string, byteslice) gomap \<Rightarrow> string \<Rightarrow> byteslice" where
  "index m k = (case map_of m k of None \<Rightarrow> NilSlice | Some v \<Rightarrow> v)"

text \<open>
  \<^verbatim>\<open>getLatestKidAndKeyWithCoolOff\<close>: one pass over \<^verbatim>\<open>keyAddedTimes\<close>; \<open>now\<close> is the
  reading of the clock. The comparison \<^verbatim>\<open>kid > usableKid\<close> is Go's comparison of strings.
\<close>

definition usable_step :: "int \<Rightarrow> int \<Rightarrow> string \<Rightarrow> string \<times> int \<Rightarrow> string" where
  "usable_step delay now usableKid e =
     (case e of (kid, addedTime) \<Rightarrow>
        if time_sub now addedTime \<ge> delay
        then (if usableKid = '''' \<or> kid > usableKid then kid else usableKid)
        else usableKid)"

definition getLatestKidAndKeyWithCoolOff :: "StandardSigner \<Rightarrow> int \<Rightarrow> string \<times> byteslice" where
  "getLatestKidAndKeyWithCoolOff s now =
     (let usableKid = foldl (usable_step (newKeyUseDelay s) now) '''' (keyAddedTimes s)
      in if usableKid = '''' then ('''', NilSlice)
         else (usableKid, index (signingKeys s) usableKid))"

datatype generate_error =
    NoSigningKeyAvailable   \<comment> \<open>no signing key available beyond cooloff period (...)\<close>

text \<open>
  \<^verbatim>\<open>GenerateToken\<close> reads the clock twice: \<open>now0\<close> inside the key selection, \<open>now\<close> for the
  claims.
\<close>

definition GenerateToken ::
  "hmac \<Rightarrow> StandardSigner \<Rightarrow> int \<Rightarrow> int \<Rightarrow> string \<Rightarrow> string list \<Rightarrow> string \<Rightarrow>
   (string \<times> string list) list \<Rightarrow> string \<Rightarrow> string \<Rightarrow> string \<Rightarrow> generate_error + Token" where
  "GenerateToken hm s now0 now username groups uid extra path domain tokenType =
     (case getLatestKidAndKeyWithCoolOff s now0 of (usableKid, signingKey) \<Rightarrow>
        (case signingKey of
           NilSlice \<Rightarrow> Inl NoSigningKeyAvailable
         | Slice key \<Rightarrow>
             if usableKid = '''' then Inl NoSigningKeyAvailable
             else
               (let claims = \<lparr>ExpiresAt = Some (NewNumericDate (now + expiration s)),
                              IssuedAt = Some (NewNumericDate now),
                              NotBefore = Some (NewNumericDate now),
                              Issuer = issuer s,
                              Audience = [audience s],
                              Subject = username,
                              User = username,
                              Groups = groups,
                              UID = uid,
                              Extra = extra,
                              Path = path,
                              DomainName = domain,
                              TokenType = tokenType,
                              SkipRefresh = False\<rparr>;
                    header = \<lparr>h_alg = Some ''HS384'', h_kid = Some usableKid\<rparr>
                in Inr \<lparr>Header = header, TokenClaims = claims,
                        Signature = hm key (header, claims)\<rparr>)))"

text \<open>
  The error values of package \<^verbatim>\<open>jwt\<close> that \<^verbatim>\<open>ValidateToken\<close> returns. They are
  declared in a file that is not among the sources; \<^verbatim>\<open>ValidateToken\<close> names these four.
  \<open>ErrInvalidToken\<close> is returned wrapping the library's error
  (\<^verbatim>\<open>fmt.Errorf("%w: %v", ErrInvalidToken, err)\<close>), so the failure that caused it stays
  visible in what the caller receives: in particular the key function's
  "unknown key ID: <kid>", by which the repository's tests recognise the rejection of an
  unknown kid.
\<close>

datatype validate_error =
    ErrTokenExpired
  | ErrInvalidSignature
  | ErrInvalidClaims
  | ErrInvalidToken jwt_error

definition keyFunc :: "StandardSigner \<Rightarrow> Token \<Rightarrow> keyfunc_error + nat list" where
  "keyFunc s t =
     (case h_alg (Header t) of
        None \<Rightarrow> Inl UnexpectedSigningMethod
      | Some a \<Rightarrow>
          if a \<notin> set hmac_methods then Inl UnexpectedSigningMethod
          else if a \<noteq> ''HS384'' then Inl UnexpectedAlgorithm
          else (case h_kid (Header t) of
                  None \<Rightarrow> Inl MissingKid
                | Some kid \<Rightarrow>
                    if kid = '''' then Inl MissingKid
                    else (case index (signingKeys s) kid of
                            NilSlice \<Rightarrow> Inl (UnknownKeyID kid)
                          | Slice key \<Rightarrow> Inr key)))"

text \<open>\<^verbatim>\<open>errors.Is(err, jwt5.ErrTokenExpired)\<close> on an error of the library.\<close>

fun is_expired :: "jwt_error \<Rightarrow> bool" where
  "is_expired (TokenInvalidClaims errs) = (TokenExpired \<in> set errs)"
| "is_expired _ = False"

definition ValidateToken ::
  "hmac \<Rightarrow> StandardSigner \<Rightarrow> int \<Rightarrow> Token option \<Rightarrow> validate_error + Claims" where
  "ValidateToken hm s now tokenString =
     (case ParseWithClaims hm (keyFunc s) (issuer s) (audience s) [''HS384''] (5 * Second)
             now tokenString of
        Inl err \<Rightarrow>
          if is_expired err then Inl ErrTokenExpired
          else if err = TokenSignatureInvalid then Inl ErrInvalidSignature
          else Inl (ErrInvalidToken err)
      | Inr token \<Rightarrow> Inr (TokenClaims token))"

datatype update_error =
    SigningKeysEmpty      \<comment> \<open>signingKeys cannot be empty\<close>
  | LatestKidNotFound     \<comment> \<open>latestKid ... not found in signingKeys\<close>

definition added_step ::
  "(string, int) gomap \<Rightarrow> int \<Rightarrow> (string, int) gomap \<Rightarrow> string \<times> byteslice \<Rightarrow> (string, int) gomap" where
  "added_step old now newKeyAddedTimes e =
     (case e of (kid, _) \<Rightarrow>
        (case map_of old kid of
           Some oldTime \<Rightarrow> assign newKeyAddedTimes kid oldTime
         | None \<Rightarrow> assign newKeyAddedTimes kid now))"

definition UpdateKeys ::
  "StandardSigner \<Rightarrow> int \<Rightarrow> (string, byteslice) gomap \<Rightarrow> string \<Rightarrow> update_error + StandardSigner" where
  "UpdateKeys s now newKeys newLatestKid =
     (if length newKeys = 0 then Inl SigningKeysEmpty
      else if map_of newKeys newLatestKid = None then Inl LatestKidNotFound
      else Inr (s\<lparr>signingKeys := newKeys,
                  keyAddedTimes := foldl (added_step (keyAddedTimes s) now) [] newKeys,
                  latestKid := newLatestKid\<rparr>))"

text \<open>
  The cool-off rule as the signer evaluates it for a kid at the instant \<open>now\<close>: the kid has
  a recorded arrival time, and the time elapsed since then is at least \<open>newKeyUseDelay\<close>.
\<close>

definition passed_cool_off :: "StandardSigner \<Rightarrow> int \<Rightarrow> string \<Rightarrow> bool" where
  "passed_cool_off s now kid =
     (case map_of (keyAddedTimes s) kid of
        None \<Rightarrow> False
      | Some addedTime \<Rightarrow> newKeyUseDelay s \<le> time_sub now addedTime)"

text \<open>An entry of the record whose name bears the prefix of signing keys.\<close>

definition prefixed :: "string \<times> byteslice \<Rightarrow> bool" where
  "prefixed e = HasPrefix (fst e) KeyPrefix"

section \<open>The rotator (package rotator)\<close>

text \<open>
  \<^verbatim>\<open>GenerateKey\<close> allocates \<^verbatim>\<open>KeySizeBytes\<close> bytes and fills them from the random source;
  the source is a parameter: \<open>None\<close> when reading fails, else the byte read at each
  position.
\<close>

datatype rotate_error =
    InvalidNumberOfKeys int   \<comment> \<open>numberOfKeys must be at least 1, got ...\<close>
  | GetFailed                 \<comment> \<open>failed to get secret ...\<close>
  | GenerateFailed            \<comment> \<open>failed to generate new key: ...\<close>
  | KeyExists int             \<comment> \<open>key with timestamp ... already exists, refusing to overwrite\<close>
  | UpdateFailed              \<comment> \<open>failed to update secret ...\<close>

definition GenerateKey :: "(nat \<Rightarrow> nat) option \<Rightarrow> rotate_error + byteslice" where
  "GenerateKey rand =
     (case rand of
        None \<Rightarrow> Inl GenerateFailed
      | Some byte \<Rightarrow> Inr (Slice (map byte [0..<KeySizeBytes])))"

record keyEntry =
  entry_name :: string
  entry_timestamp :: int
  entry_value :: byteslice

text \<open>The loop that collects the well-formed signing keys of the record.\<close>

fun collect_keys :: "(string, byteslice) gomap \<Rightarrow> keyEntry list" where
  "collect_keys [] = []"
| "collect_keys ((name, v) # rest) =
     (if \<not> HasPrefix name KeyPrefix then collect_keys rest
      else case ParseKeyTimestamp name of
             Inl e \<Rightarrow> collect_keys rest
           | Inr timestamp \<Rightarrow>
               \<lparr>entry_name = name, entry_timestamp = timestamp, entry_value = v\<rparr> # collect_keys rest)"

text \<open>\<^verbatim>\<open>delete(m, k)\<close> on a map.\<close>

definition delete :: "('k, 'v) gomap \<Rightarrow> 'k \<Rightarrow> ('k, 'v) gomap" where
  "delete m k = filter (\<lambda>e. fst e \<noteq> k) m"

text \<open>
  \<^verbatim>\<open>sort.Slice\<close> is not stable: it returns some rearrangement of the slice that is ordered
  by the comparison. The rotator takes the sorting function as the parameter \<open>sortSlice\<close>;
  \<open>sorts_by_timestamp\<close> says what every outcome of \<^verbatim>\<open>sort.Slice\<close> with the rotator's
  comparison satisfies.
\<close>

definition sorts_by_timestamp :: "(keyEntry list \<Rightarrow> keyEntry list) \<Rightarrow> bool" where
  "sorts_by_timestamp sortSlice =
     (\<forall>keys. mset (sortSlice keys) = mset keys \<and> sorted (map entry_timestamp (sortSlice keys)))"

text \<open>
  \<^verbatim>\<open>RotateSecret\<close>. The store is a parameter: \<open>got\<close> is the outcome of \<^verbatim>\<open>Get\<close> (\<open>None\<close>
  when it fails, else the \<^verbatim>\<open>Data\<close> of the secret), \<open>updateOk\<close> tells whether \<^verbatim>\<open>Update\<close>
  succeeds; \<open>now\<close> is \<^verbatim>\<open>time.Now().UTC().Unix()\<close>. The result is the \<^verbatim>\<open>Data\<close> written
  to the store.
\<close>

definition RotateSecret ::
  "(keyEntry list \<Rightarrow> keyEntry list) \<Rightarrow> secret_data option \<Rightarrow> (nat \<Rightarrow> nat) option \<Rightarrow> int \<Rightarrow> bool \<Rightarrow>
   int \<Rightarrow> rotate_error + (string, byteslice) gomap" where
  "RotateSecret sortSlice got rand now updateOk numberOfKeys =
     (if numberOfKeys < 1 then Inl (InvalidNumberOfKeys numberOfKeys)
      else case got of
        None \<Rightarrow> Inl GetFailed
      | Some secretData \<Rightarrow>
          (let data = (case secretData of None \<Rightarrow> [] | Some m \<Rightarrow> m);
               keys = sortSlice (collect_keys data)
           in case GenerateKey rand of
                Inl e \<Rightarrow> Inl e
              | Inr newKey \<Rightarrow>
                  (let newKeyName = BuildKeyName now
                   in if list_ex (\<lambda>k. entry_name k = newKeyName) keys then Inl (KeyExists now)
                      else
                        (let data1 = assign data newKeyName newKey;
                             keys1 = sortSlice (keys @ [\<lparr>entry_name = newKeyName,
                                        entry_timestamp = now, entry_value = newKey\<rparr>]);
                             data2 = (if int (length keys1) > numberOfKeys
                                      then foldl (\<lambda>d k. delete d (entry_name k)) data1
                                             (take (nat (int (length keys1) - numberOfKeys)) keys1)
                                      else data1)
                         in if updateOk then Inr data2 else Inl UpdateFailed))))"

text \<open>The well-formed signing-key entries of a record, and the timestamp of a key name.\<close>

definition well_formed :: "string \<times> byteslice \<Rightarrow> bool" where
  "well_formed e = (prefixed e \<and> ParseInt (TrimPrefix (fst e) KeyPrefix) \<noteq> None)"

definition valid_entries :: "(string, byteslice) gomap \<Rightarrow> (string \<times> byteslice) list" where
  "valid_entries data = filter well_formed data"

definition timestamp_of :: "string \<Rightarrow> int" where
  "timestamp_of name = (case ParseKeyTimestamp name of Inl e \<Rightarrow> 0 | Inr t \<Rightarrow> t)"

definition to_entry :: "string \<times> byteslice \<Rightarrow> keyEntry" where
  "to_entry e = \<lparr>entry_name = fst e, entry_timestamp = timestamp_of (fst e), entry_value = snd e\<rparr>"

section \<open>Concrete states used in the examples\<close>

definition hmacA :: hmac where
  "hmacA key msg = key"

definition signerA :: StandardSigner where
  "signerA = \<lparr>signingKeys = [(''1000'', Slice [65, 65])], keyAddedTimes = [(''1000'', 0)],
     latestKid = ''1000'', newKeyUseDelay = 5 * Second, issuer = ''iss'', audience = ''aud'',
     expiration = 3600 * Second\<rparr>"

definition keysB :: "(string, byteslice) gomap" where
  "keysB = [(''1000'', Slice [65, 65]), (''2000'', Slice [66])]"

definition recordZero :: "(string, byteslice) gomap" where
  "recordZero = [(''jwt-signing-key-0'', Slice [1])]"

definition recordShort :: "(string, byteslice) gomap" where
  "recordShort = [(''jwt-signing-key-1000'', Slice [107, 101, 121, 49])]"

definition signerShort :: StandardSigner where
  "signerShort = \<lparr>signingKeys = [(''1000'', Slice [107, 101, 121, 49])],
     keyAddedTimes = [(''1000'', 7)], latestKid = ''1000'', newKeyUseDelay = 0,
     issuer = ''iss'', audience = ''aud'', expiration = 3600 * Second\<rparr>"

text \<open>Two keys past the cool-off whose kids differ in length, in both iteration orders.\<close>

definition signerMixed :: "(string, int) gomap \<Rightarrow> StandardSigner" where
  "signerMixed added = \<lparr>signingKeys = [(''999'', Slice [1]), (''1000'', Slice [2])],
     keyAddedTimes = added, latestKid = ''1000'', newKeyUseDelay = Second,
     issuer = ''iss'', audience = ''aud'', expiration = 3600 * Second\<rparr>"

definition record5000 :: "(string, byteslice) gomap" where
  "record5000 = [(''jwt-signing-key-5000'', Slice [1])]"

definition sevens :: "nat \<Rightarrow> nat" where
  "sevens i = 7"

text \<open>Tokens presented to \<open>signerA\<close>, whose only key is kid 1000 with the bytes 65, 65.\<close>

definition someClaims :: Claims where
  "someClaims = \<lparr>ExpiresAt = Some 3610, IssuedAt = Some 10, NotBefore = Some 10,
     Issuer = ''iss'', Audience = [''aud''], Subject = ''user'', User = ''user'', Groups = [],
     UID = ''uid'', Extra = [], Path = '''', DomainName = '''', TokenType = '''',
     SkipRefresh = False\<rparr>"

definition tokenHS256 :: Token where
  "tokenHS256 = \<lparr>Header = \<lparr>h_alg = Some ''HS256'', h_kid = Some ''1000''\<rparr>,
     TokenClaims = someClaims,
     Signature = hmacA [65, 65] (\<lparr>h_alg = Some ''HS256'', h_kid = Some ''1000''\<rparr>, someClaims)\<rparr>"

definition tokenES256K :: Token where
  "tokenES256K = \<lparr>Header = \<lparr>h_alg = Some ''ES256K'', h_kid = Some ''1000''\<rparr>,
     TokenClaims = someClaims, Signature = [1, 2, 3]\<rparr>"

definition tokenKid9999 :: Token where
  "tokenKid9999 = \<lparr>Header = \<lparr>h_alg = Some ''HS384'', h_kid = Some ''9999''\<rparr>,
     TokenClaims = someClaims,
     Signature = hmacA [66] (\<lparr>h_alg = Some ''HS384'', h_kid = Some ''9999''\<rparr>, someClaims)\<rparr>"

text \<open>A signer as \<open>signerA\<close> whose tokens have a negative lifetime, and the token it signs.\<close>

definition signerPast :: StandardSigner where
  "signerPast = signerA\<lparr>expiration := - (3600 * Second)\<rparr>"

definition pastClaims :: Claims where
  "pastClaims = \<lparr>ExpiresAt = Some (- 3590), IssuedAt = Some 10, NotBefore = Some 10,
     Issuer = ''iss'', Audience = [''aud''], Subject = ''user'', User = ''user'', Groups = [],
     UID = ''uid'', Extra = [], Path = '''', DomainName = '''', TokenType = '''',
     SkipRefresh = False\<rparr>"

definition tokenPast :: Token where
  "tokenPast = \<lparr>Header = \<lparr>h_alg = Some ''HS384'', h_kid = Some ''1000''\<rparr>,
     TokenClaims = pastClaims,
     Signature = hmacA [65, 65] (\<lparr>h_alg = Some ''HS384'', h_kid = Some ''1000''\<rparr>, pastClaims)\<rparr>"

section \<open>Properties\<close>

section \<open>Go maps as entry lists\<close>

lemma map_of_assign: "map_of (assign m k v) = (map_of m)(k \<mapsto> v)"
  by (induction m) (auto simp: fun_eq_iff)

lemma keys_assign: "fst ` set (assign m k v) = insert k (fst ` set m)"
  by (simp add: dom_map_of_conv_image_fst [symmetric] map_of_assign)

lemma distinct_assign: "distinct (map fst m) \<Longrightarrow> distinct (map fst (assign m k v))"
proof (induction m)
  case Nil
  then show ?case by simp
next
  case (Cons e m)
  obtain k' v' where e: "e = (k', v')" by (cases e)
  show ?case
  proof (cases "k' = k")
    case True
    with Cons.prems e show ?thesis by simp
  next
    case False
    have "k' \<notin> fst ` set (assign m k v)"
      using Cons.prems e False by (simp add: keys_assign)
    with Cons e False show ?thesis by simp
  qed
qed

section \<open>Key selection and the cool-off rule\<close>

lemma usable_fold_cases:
  "foldl (usable_step d now) u xs = u \<or>
   (\<exists>t. (foldl (usable_step d now) u xs, t) \<in> set xs \<and> d \<le> time_sub now t)"
proof (induction xs arbitrary: u)
  case Nil
  then show ?case by simp
next
  case (Cons e xs)
  obtain k t where e: "e = (k, t)" by (cases e)
  let ?u' = "usable_step d now u e"
  have step: "?u' = u \<or> (?u' = k \<and> d \<le> time_sub now t)"
    by (simp add: usable_step_def e)
  from Cons.IH [of ?u'] step e show ?case by auto
qed

lemma time_sub_exact:
  "minDuration < d \<Longrightarrow> d \<le> time_sub now t \<Longrightarrow> t + d \<le> now"
  by (simp add: time_sub_def minDuration_def maxDuration_def split: if_splits)

lemma selection_passed:
  assumes dist: "distinct (map fst (keyAddedTimes s))"
    and sel: "getLatestKidAndKeyWithCoolOff s now = (kid, key)" and ne: "kid \<noteq> ''''"
  shows "passed_cool_off s now kid \<and> key = index (signingKeys s) kid"
proof -
  let ?r = "foldl (usable_step (newKeyUseDelay s) now) '''' (keyAddedTimes s)"
  from sel ne have r: "?r = kid" and key: "key = index (signingKeys s) kid"
    by (auto simp: getLatestKidAndKeyWithCoolOff_def Let_def split: if_splits)
  from usable_fold_cases [of "newKeyUseDelay s" now "''''" "keyAddedTimes s"] r ne
  obtain t where "(kid, t) \<in> set (keyAddedTimes s)" "newKeyUseDelay s \<le> time_sub now t"
    by auto
  with dist have "passed_cool_off s now kid"
    by (simp add: passed_cool_off_def)
  with key show ?thesis by simp
qed

lemma generate_cases:
  "GenerateToken hm s now0 now username groups uid extra path domain tokenType = Inr tok \<Longrightarrow>
   \<exists>kid key. getLatestKidAndKeyWithCoolOff s now0 = (kid, Slice key) \<and> kid \<noteq> '''' \<and>
     h_kid (Header tok) = Some kid \<and> h_alg (Header tok) = Some ''HS384''"
  by (auto simp: GenerateToken_def Let_def split: prod.splits byteslice.splits if_splits)

text \<open>
  Claim C1. Whenever \<^verbatim>\<open>GenerateToken\<close> returns a token, the kid in its header has an
  arrival time \<open>addedTime\<close> in \<^verbatim>\<open>keyAddedTimes\<close> and had passed the cool-off when the
  key was selected: the elapsed time \<^verbatim>\<open>now.Sub(addedTime)\<close> is at least
  \<^verbatim>\<open>newKeyUseDelay\<close>, which is \<open>addedTime + newKeyUseDelay \<le> now\<close> for every delay
  above the least duration (where the subtraction of Go does not saturate downwards).
  And whenever no kid of the key set has passed the cool-off, \<^verbatim>\<open>GenerateToken\<close> signs
  nothing and fails with the error "no signing key available beyond cooloff period".
  The statement holds for every order in which the map is visited.
\<close>

theorem generate_respects_cool_off:
  assumes "distinct (map fst (keyAddedTimes s))"
  shows "(\<forall>tok. GenerateToken hm s now0 now username groups uid extra path domain tokenType = Inr tok \<longrightarrow>
            (\<exists>kid addedTime. h_kid (Header tok) = Some kid \<and>
               map_of (keyAddedTimes s) kid = Some addedTime \<and>
               newKeyUseDelay s \<le> time_sub now0 addedTime \<and>
               (minDuration < newKeyUseDelay s \<longrightarrow> addedTime + newKeyUseDelay s \<le> now0)))
       \<and> ((\<forall>kid \<in> dom (map_of (signingKeys s)). \<not> passed_cool_off s now0 kid) \<longrightarrow>
            GenerateToken hm s now0 now username groups uid extra path domain tokenType
              = Inl NoSigningKeyAvailable)"
proof (intro conjI allI impI)
  fix tok
  assume "GenerateToken hm s now0 now username groups uid extra path domain tokenType = Inr tok"
  from generate_cases [OF this] obtain kid key where
    sel: "getLatestKidAndKeyWithCoolOff s now0 = (kid, Slice key)" and ne: "kid \<noteq> ''''"
    and hk: "h_kid (Header tok) = Some kid" by blast
  from selection_passed [OF assms sel ne] have "passed_cool_off s now0 kid" by simp
  then obtain t where t: "map_of (keyAddedTimes s) kid = Some t"
    and u: "newKeyUseDelay s \<le> time_sub now0 t"
    by (auto simp: passed_cool_off_def split: option.splits)
  from u have "minDuration < newKeyUseDelay s \<longrightarrow> t + newKeyUseDelay s \<le> now0"
    by (simp add: time_sub_exact)
  with hk t u show "\<exists>kid addedTime. h_kid (Header tok) = Some kid \<and>
               map_of (keyAddedTimes s) kid = Some addedTime \<and>
               newKeyUseDelay s \<le> time_sub now0 addedTime \<and>
               (minDuration < newKeyUseDelay s \<longrightarrow> addedTime + newKeyUseDelay s \<le> now0)"
    by blast
next
  assume none: "\<forall>kid \<in> dom (map_of (signingKeys s)). \<not> passed_cool_off s now0 kid"
  obtain kid key where sel: "getLatestKidAndKeyWithCoolOff s now0 = (kid, key)"
    by (cases "getLatestKidAndKeyWithCoolOff s now0")
  show "GenerateToken hm s now0 now username groups uid extra path domain tokenType
          = Inl NoSigningKeyAvailable"
  proof (cases "kid = ''''")
    case True
    with sel show ?thesis
      by (simp add: GenerateToken_def split: byteslice.splits)
  next
    case False
    from selection_passed [OF assms sel False]
    have p: "passed_cool_off s now0 kid" and k: "key = index (signingKeys s) kid" by simp_all
    from p none have "map_of (signingKeys s) kid = None" by blast
    with k have "key = NilSlice" by (simp add: index_def)
    with sel show ?thesis by (simp add: GenerateToken_def)
  qed
qed

text \<open>
  An instance: a key observed at instant 0 with a cool-off of five seconds signs at second
  10 and is refused at second 1.
\<close>

lemma signerA_select: "getLatestKidAndKeyWithCoolOff signerA (10 * Second) = (''1000'', Slice [65, 65])"
  by (simp add: getLatestKidAndKeyWithCoolOff_def signerA_def usable_step_def time_sub_def
      minDuration_def maxDuration_def Second_def index_def)

theorem generate_respects_cool_off_witness:
  "(\<exists>tok kid addedTime.
      GenerateToken hmacA signerA (10 * Second) (10 * Second) ''user'' [] ''uid'' [] '''' '''' '''' = Inr tok \<and>
      h_kid (Header tok) = Some kid \<and> map_of (keyAddedTimes signerA) kid = Some addedTime \<and>
      addedTime + newKeyUseDelay signerA \<le> 10 * Second) \<and>
   GenerateToken hmacA signerA (1 * Second) (1 * Second) ''user'' [] ''uid'' [] '''' '''' ''''
     = Inl NoSigningKeyAvailable"
proof -
  have d: "distinct (map fst (keyAddedTimes signerA))"
    by (simp add: signerA_def)
  have m: "minDuration < newKeyUseDelay signerA"
    by (simp add: signerA_def minDuration_def Second_def)
  obtain tok where g: "GenerateToken hmacA signerA (10 * Second) (10 * Second) ''user'' [] ''uid'' [] '''' '''' '''' = Inr tok"
    by (simp add: GenerateToken_def signerA_select Let_def)
  have cool: "\<forall>kid \<in> dom (map_of (signingKeys signerA)). \<not> passed_cool_off signerA (1 * Second) kid"
    by (simp add: signerA_def passed_cool_off_def time_sub_def minDuration_def maxDuration_def Second_def)
  note gen = generate_respects_cool_off [OF d]
  from gen g m have
    "\<exists>kid addedTime. h_kid (Header tok) = Some kid \<and> map_of (keyAddedTimes signerA) kid = Some addedTime \<and>
      addedTime + newKeyUseDelay signerA \<le> 10 * Second"
    by blast
  moreover from gen cool have
    "GenerateToken hmacA signerA (1 * Second) (1 * Second) ''user'' [] ''uid'' [] '''' '''' ''''
       = Inl NoSigningKeyAvailable"
    by blast
  ultimately show ?thesis using g by blast
qed

section \<open>Updating the key set\<close>

lemma added_fold:
  "map_of (foldl (added_step old now) acc ks) kid =
     (if kid \<in> fst ` set ks
      then Some (case map_of old kid of Some oldTime \<Rightarrow> oldTime | None \<Rightarrow> now)
      else map_of acc kid)"
proof (induction ks arbitrary: acc)
  case Nil
  then show ?case by simp
next
  case (Cons e ks)
  obtain k v where e: "e = (k, v)" by (cases e)
  have "map_of (added_step old now acc e) kid =
          (if kid = k then Some (case map_of old kid of Some oldTime \<Rightarrow> oldTime | None \<Rightarrow> now)
           else map_of acc kid)"
    by (simp add: added_step_def e map_of_assign split: option.splits)
  with Cons.IH [of "added_step old now acc e"] e show ?case by auto
qed

lemma added_fold_distinct:
  "distinct (map fst acc) \<Longrightarrow> distinct (map fst (foldl (added_step old now) acc ks))"
proof (induction ks arbitrary: acc)
  case Nil
  then show ?case by simp
next
  case (Cons e ks)
  have "distinct (map fst (added_step old now acc e))"
    using Cons.prems by (cases e) (simp add: added_step_def distinct_assign split: option.splits)
  from Cons.IH [OF this] show ?case by simp
qed

text \<open>
  Claim C7. After every call of \<^verbatim>\<open>UpdateKeys\<close> that is accepted, a kid of the new key set
  that had an arrival time keeps it, a kid of the new key set without one is stamped with
  the current time, and the kids with an arrival time are exactly the kids of the key set
  (so a kid that is dropped from the set loses its record).
\<close>

theorem update_keys_added_at:
  assumes "UpdateKeys s now newKeys newLatestKid = Inr s'"
  shows "(\<forall>kid oldTime. kid \<in> dom (map_of newKeys) \<and> map_of (keyAddedTimes s) kid = Some oldTime \<longrightarrow>
            map_of (keyAddedTimes s') kid = Some oldTime)
       \<and> (\<forall>kid. kid \<in> dom (map_of newKeys) \<and> map_of (keyAddedTimes s) kid = None \<longrightarrow>
            map_of (keyAddedTimes s') kid = Some now)
       \<and> signingKeys s' = newKeys
       \<and> dom (map_of (keyAddedTimes s')) = dom (map_of (signingKeys s'))
       \<and> distinct (map fst (keyAddedTimes s'))"
proof -
  from assms have s': "s' = s\<lparr>signingKeys := newKeys,
      keyAddedTimes := foldl (added_step (keyAddedTimes s) now) [] newKeys,
      latestKid := newLatestKid\<rparr>"
    by (simp add: UpdateKeys_def split: if_splits)
  have look: "\<And>kid. map_of (keyAddedTimes s') kid =
      (if kid \<in> dom (map_of newKeys)
       then Some (case map_of (keyAddedTimes s) kid of Some oldTime \<Rightarrow> oldTime | None \<Rightarrow> now)
       else None)"
    by (simp add: s' added_fold dom_map_of_conv_image_fst)
  have "dom (map_of (keyAddedTimes s')) = dom (map_of newKeys)"
    by (auto simp: look dom_def split: if_splits)
  moreover have "distinct (map fst (keyAddedTimes s'))"
    by (simp add: s' added_fold_distinct)
  moreover have "signingKeys s' = newKeys"
    by (simp add: s')
  ultimately show ?thesis
    using look by simp
qed

text \<open>
  An instance: kid 1000 is known since instant 0, kid 2000 arrives at second 20.
\<close>

theorem update_keys_added_at_witness:
  "\<exists>s'. UpdateKeys signerA (20 * Second) keysB ''2000'' = Inr s' \<and>
     map_of (keyAddedTimes s') ''1000'' = Some 0 \<and>
     map_of (keyAddedTimes s') ''2000'' = Some (20 * Second) \<and>
     dom (map_of (keyAddedTimes s')) = dom (map_of (signingKeys s'))"
proof -
  obtain s' where u: "UpdateKeys signerA (20 * Second) keysB ''2000'' = Inr s'"
    by (simp add: UpdateKeys_def keysB_def)
  have old: "''1000'' \<in> dom (map_of keysB) \<and> map_of (keyAddedTimes signerA) ''1000'' = Some 0"
    by (simp add: keysB_def signerA_def)
  have new: "''2000'' \<in> dom (map_of keysB) \<and> map_of (keyAddedTimes signerA) ''2000'' = None"
    by (simp add: keysB_def signerA_def)
  from update_keys_added_at [OF u] old new u show ?thesis
    by blast
qed

section \<open>Parsing the key record\<close>

lemma has_prefix_append: "HasPrefix (p @ x) p"
  by (simp add: HasPrefix_def)

lemma trim_prefix_append: "TrimPrefix (p @ x) p = x"
  by (simp add: TrimPrefix_def HasPrefix_def)

lemma has_prefix_split: "HasPrefix name p \<Longrightarrow> p @ TrimPrefix name p = name"
  by (simp add: TrimPrefix_def HasPrefix_def) (metis append_take_drop_id)

lemma ParseInt_empty: "ParseInt '''' = None"
  by (simp add: ParseInt_def)

lemma parse_loop_skip:
  "\<not> HasPrefix name KeyPrefix \<Longrightarrow> parse_loop ((name, v) # rest) st = parse_loop rest st"
  by (cases st) simp

lemma parse_loop_bad_head:
  "HasPrefix name KeyPrefix \<Longrightarrow> ParseInt (TrimPrefix name KeyPrefix) = None \<Longrightarrow>
   parse_loop ((name, v) # rest) st = Inl (InvalidKeyFormat name BadTimestamp)"
  by (cases st) (simp add: ParseKeyTimestamp_def)

lemma parse_loop_good_head:
  "HasPrefix name KeyPrefix \<Longrightarrow> ParseInt (TrimPrefix name KeyPrefix) = Some t \<Longrightarrow>
   parse_loop ((name, v) # rest) (keys, ts, kid) =
     parse_loop rest (assign keys (TrimPrefix name KeyPrefix) v,
                      if t > ts then t else ts,
                      if t > ts then TrimPrefix name KeyPrefix else kid)"
  by (simp add: ParseKeyTimestamp_def Let_def)

lemma parse_loop_filter: "parse_loop (filter prefixed xs) st = parse_loop xs st"
proof (induction xs arbitrary: st)
  case Nil
  then show ?case by simp
next
  case (Cons e xs)
  obtain name v where e: "e = (name, v)" by (cases e)
  obtain keys ts kid where st: "st = (keys, ts, kid)" by (cases st)
  show ?case
  proof (cases "HasPrefix name KeyPrefix")
    case False
    with Cons.IH e show ?thesis
      by (simp add: prefixed_def parse_loop_skip del: parse_loop.simps)
  next
    case True
    show ?thesis
    proof (cases "ParseInt (TrimPrefix name KeyPrefix)")
      case None
      with True e show ?thesis
        by (simp add: prefixed_def parse_loop_bad_head del: parse_loop.simps)
    next
      case (Some t)
      with True e st Cons.IH show ?thesis
        by (simp add: prefixed_def parse_loop_good_head del: parse_loop.simps)
    qed
  qed
qed

lemma parse_loop_no_prefixed:
  "\<forall>e \<in> set xs. \<not> prefixed e \<Longrightarrow> parse_loop xs st = Inr st"
proof -
  assume "\<forall>e \<in> set xs. \<not> prefixed e"
  then have "filter prefixed xs = []" by (simp add: filter_empty_conv)
  with parse_loop_filter [of xs st] show ?thesis by simp
qed

lemma parse_loop_malformed:
  "\<exists>e \<in> set xs. prefixed e \<and> ParseInt (TrimPrefix (fst e) KeyPrefix) = None \<Longrightarrow>
   \<exists>e \<in> set xs. prefixed e \<and> ParseInt (TrimPrefix (fst e) KeyPrefix) = None \<and>
      parse_loop xs st = Inl (InvalidKeyFormat (fst e) BadTimestamp)"
proof (induction xs arbitrary: st)
  case Nil
  then show ?case by simp
next
  case (Cons e xs)
  obtain name v where e: "e = (name, v)" by (cases e)
  obtain keys ts kid where st: "st = (keys, ts, kid)" by (cases st)
  show ?case
  proof (cases "HasPrefix name KeyPrefix")
    case False
    with Cons.prems e have "\<exists>e \<in> set xs. prefixed e \<and> ParseInt (TrimPrefix (fst e) KeyPrefix) = None"
      by (auto simp: prefixed_def)
    from Cons.IH [OF this, of st] False e show ?thesis
      by (auto simp: parse_loop_skip simp del: parse_loop.simps)
  next
    case True
    show ?thesis
    proof (cases "ParseInt (TrimPrefix name KeyPrefix)")
      case None
      with True e show ?thesis
        by (auto simp: prefixed_def parse_loop_bad_head simp del: parse_loop.simps)
    next
      case (Some t)
      with Cons.prems e have "\<exists>e \<in> set xs. prefixed e \<and> ParseInt (TrimPrefix (fst e) KeyPrefix) = None"
        by (auto simp: prefixed_def)
      from Cons.IH [OF this] obtain e' where
        "e' \<in> set xs" "prefixed e'" "ParseInt (TrimPrefix (fst e') KeyPrefix) = None"
        "parse_loop xs (assign keys (TrimPrefix name KeyPrefix) v,
                      if t > ts then t else ts,
                      if t > ts then TrimPrefix name KeyPrefix else kid) = Inl (InvalidKeyFormat (fst e') BadTimestamp)"
        by blast
      with True Some e st show ?thesis
        by (auto simp: parse_loop_good_head simp del: parse_loop.simps)
    qed
  qed
qed

text \<open>
  Claim C9. Parsing a record skips the entries without the prefix \<^verbatim>\<open>jwt-signing-key-\<close>:
  the result is that of the record with these entries removed. If some prefixed entry has
  a suffix that \<^verbatim>\<open>strconv.ParseInt\<close> rejects, the whole parse fails with the error
  "invalid key format" for such an entry (the malformed-key kind). If no entry is prefixed,
  the parse fails with "no signing keys found in secret", and a record without data fails
  with "secret has no data" (both the no-keys kind). This holds for every iteration order.
\<close>

theorem parse_record_outcomes:
  "ParseSigningKeysFromSecret (Some (filter prefixed entries)) = ParseSigningKeysFromSecret (Some entries)
   \<and> ((\<exists>e \<in> set entries. prefixed e \<and> ParseInt (TrimPrefix (fst e) KeyPrefix) = None) \<longrightarrow>
        (\<exists>e \<in> set entries. prefixed e \<and> ParseInt (TrimPrefix (fst e) KeyPrefix) = None \<and>
           ParseSigningKeysFromSecret (Some entries) = Inl (InvalidKeyFormat (fst e) BadTimestamp)))
   \<and> ((\<forall>e \<in> set entries. \<not> prefixed e) \<longrightarrow>
        ParseSigningKeysFromSecret (Some entries) = Inl NoSigningKeysFound)
   \<and> ParseSigningKeysFromSecret None = Inl SecretHasNoData"
proof (intro conjI impI)
  show "ParseSigningKeysFromSecret (Some (filter prefixed entries)) = ParseSigningKeysFromSecret (Some entries)"
    by (simp add: ParseSigningKeysFromSecret_def parse_loop_filter)
next
  assume "\<exists>e \<in> set entries. prefixed e \<and> ParseInt (TrimPrefix (fst e) KeyPrefix) = None"
  from parse_loop_malformed [OF this, of "([], 0, '''')"]
  show "\<exists>e \<in> set entries. prefixed e \<and> ParseInt (TrimPrefix (fst e) KeyPrefix) = None \<and>
           ParseSigningKeysFromSecret (Some entries) = Inl (InvalidKeyFormat (fst e) BadTimestamp)"
    by (auto simp: ParseSigningKeysFromSecret_def)
next
  assume "\<forall>e \<in> set entries. \<not> prefixed e"
  then show "ParseSigningKeysFromSecret (Some entries) = Inl NoSigningKeysFound"
    by (simp add: ParseSigningKeysFromSecret_def parse_loop_no_prefixed)
next
  show "ParseSigningKeysFromSecret None = Inl SecretHasNoData"
    by (simp add: ParseSigningKeysFromSecret_def)
qed

text \<open>
  Instances: a record with a foreign entry and a prefixed entry that is no number, and a
  record with a foreign entry only.
\<close>

theorem parse_record_outcomes_witness:
  "ParseSigningKeysFromSecret
     (Some [(''other-data'', Slice [1]), (''jwt-signing-key-notanumber'', Slice [2])])
     = Inl (InvalidKeyFormat ''jwt-signing-key-notanumber'' BadTimestamp)
   \<and> ParseSigningKeysFromSecret (Some [(''other-key'', Slice [1])]) = Inl NoSigningKeysFound"
proof -
  let ?r = "[(''other-data'', Slice [1]), (''jwt-signing-key-notanumber'', Slice [2])]"
  have p1: "\<not> prefixed (''other-data'', Slice [1])"
    by (simp add: prefixed_def HasPrefix_def KeyPrefix_def)
  have p2: "prefixed (''jwt-signing-key-notanumber'', Slice [2])"
    by (simp add: prefixed_def HasPrefix_def KeyPrefix_def)
  have t2: "TrimPrefix ''jwt-signing-key-notanumber'' KeyPrefix = ''notanumber''"
    by (simp add: TrimPrefix_def HasPrefix_def KeyPrefix_def)
  have n2: "ParseInt ''notanumber'' = None"
    by (simp add: ParseInt_def is_digit_def)
  have bad: "\<exists>e \<in> set ?r. prefixed e \<and> ParseInt (TrimPrefix (fst e) KeyPrefix) = None"
    using p2 t2 n2 by simp
  have only: "\<forall>e \<in> set ?r. prefixed e \<longrightarrow> fst e = ''jwt-signing-key-notanumber''"
    using p1 by auto
  have p3: "\<forall>e \<in> set [(''other-key'', Slice [1])]. \<not> prefixed e"
    by (simp add: prefixed_def HasPrefix_def KeyPrefix_def)
  from parse_record_outcomes [of ?r] bad only
  have "ParseSigningKeysFromSecret (Some ?r)
          = Inl (InvalidKeyFormat ''jwt-signing-key-notanumber'' BadTimestamp)"
    by metis
  moreover from parse_record_outcomes [of "[(''other-key'', Slice [1])]"] p3
  have "ParseSigningKeysFromSecret (Some [(''other-key'', Slice [1])]) = Inl NoSigningKeysFound"
    by blast
  ultimately show ?thesis by simp
qed

section \<open>Admission of a parsed record\<close>

lemma parse_loop_accepts:
  assumes "distinct (map fst xs)"
    and "\<forall>e \<in> set xs. prefixed e \<longrightarrow> ParseInt (TrimPrefix (fst e) KeyPrefix) \<noteq> None"
  shows "\<exists>keys' ts' kid'. parse_loop xs (keys, ts, kid) = Inr (keys', ts', kid') \<and>
           (\<forall>k. map_of keys' k =
                  (if KeyPrefix @ k \<in> fst ` set xs then map_of xs (KeyPrefix @ k) else map_of keys k))"
  using assms
proof (induction xs arbitrary: keys ts kid)
  case Nil
  then show ?case by simp
next
  case (Cons e xs)
  obtain name v where e: "e = (name, v)" by (cases e)
  from Cons.prems have dist: "distinct (map fst xs)" and fresh: "name \<notin> fst ` set xs"
    and rest: "\<forall>e \<in> set xs. prefixed e \<longrightarrow> ParseInt (TrimPrefix (fst e) KeyPrefix) \<noteq> None"
    by (auto simp: e)
  show ?case
  proof (cases "HasPrefix name KeyPrefix")
    case False
    then have nk: "\<And>k. KeyPrefix @ k \<noteq> name"
      using has_prefix_append by blast
    from Cons.IH [OF dist rest, of keys ts kid] obtain keys' ts' kid' where
      r: "parse_loop xs (keys, ts, kid) = Inr (keys', ts', kid')"
      and m: "\<forall>k. map_of keys' k =
                  (if KeyPrefix @ k \<in> fst ` set xs then map_of xs (KeyPrefix @ k) else map_of keys k)"
      by blast
    have "parse_loop (e # xs) (keys, ts, kid) = Inr (keys', ts', kid')"
      using False r by (simp add: e parse_loop_skip del: parse_loop.simps)
    moreover have "\<forall>k. map_of keys' k =
        (if KeyPrefix @ k \<in> fst ` set (e # xs) then map_of (e # xs) (KeyPrefix @ k) else map_of keys k)"
      using m nk by (simp add: e)
    ultimately show ?thesis by blast
  next
    case True
    with Cons.prems obtain t where t: "ParseInt (TrimPrefix name KeyPrefix) = Some t"
      by (auto simp: e prefixed_def)
    let ?kid = "TrimPrefix name KeyPrefix"
    let ?st = "(assign keys ?kid v, if t > ts then t else ts, if t > ts then ?kid else kid)"
    from Cons.IH [OF dist rest, of "assign keys ?kid v" "if t > ts then t else ts" "if t > ts then ?kid else kid"]
    obtain keys' ts' kid' where
      r: "parse_loop xs ?st = Inr (keys', ts', kid')"
      and m: "\<forall>k. map_of keys' k =
                  (if KeyPrefix @ k \<in> fst ` set xs then map_of xs (KeyPrefix @ k)
                   else map_of (assign keys ?kid v) k)"
      by blast
    have "parse_loop (e # xs) (keys, ts, kid) = Inr (keys', ts', kid')"
      using True t r by (simp add: e parse_loop_good_head del: parse_loop.simps)
    moreover have "\<forall>k. map_of keys' k =
        (if KeyPrefix @ k \<in> fst ` set (e # xs) then map_of (e # xs) (KeyPrefix @ k) else map_of keys k)"
    proof
      fix k
      show "map_of keys' k =
        (if KeyPrefix @ k \<in> fst ` set (e # xs) then map_of (e # xs) (KeyPrefix @ k) else map_of keys k)"
      proof (cases "KeyPrefix @ k = name")
        case True
        then have "k = ?kid" by (auto simp: trim_prefix_append)
        with True m fresh show ?thesis by (simp add: e map_of_assign)
      next
        case False
        then have "k \<noteq> ?kid" using has_prefix_split [OF \<open>HasPrefix name KeyPrefix\<close>] by blast
        with False m show ?thesis by (auto simp: e map_of_assign)
      qed
    qed
    ultimately show ?thesis by blast
  qed
qed

lemma parse_loop_nonpositive:
  assumes "\<forall>e \<in> set xs. prefixed e \<longrightarrow> (\<exists>t. ParseInt (TrimPrefix (fst e) KeyPrefix) = Some t \<and> t \<le> 0)"
  shows "\<exists>keys'. parse_loop xs (keys, 0, kid) = Inr (keys', 0, kid) \<and>
           fst ` set keys' = fst ` set keys \<union> (\<lambda>e. TrimPrefix (fst e) KeyPrefix) ` {e \<in> set xs. prefixed e}"
  using assms
proof (induction xs arbitrary: keys)
  case Nil
  then show ?case by simp
next
  case (Cons e xs)
  obtain name v where e: "e = (name, v)" by (cases e)
  from Cons.prems have
    rest: "\<forall>e \<in> set xs. prefixed e \<longrightarrow> (\<exists>t. ParseInt (TrimPrefix (fst e) KeyPrefix) = Some t \<and> t \<le> 0)"
    by simp
  show ?case
  proof (cases "HasPrefix name KeyPrefix")
    case False
    from Cons.IH [OF rest, of keys] False show ?thesis
      by (auto simp: e parse_loop_skip prefixed_def simp del: parse_loop.simps)
  next
    case True
    with Cons.prems obtain t where t: "ParseInt (TrimPrefix name KeyPrefix) = Some t" "t \<le> 0"
      by (auto simp: e prefixed_def)
    from Cons.IH [OF rest, of "assign keys (TrimPrefix name KeyPrefix) v"] obtain keys' where
      r: "parse_loop xs (assign keys (TrimPrefix name KeyPrefix) v, 0, kid) = Inr (keys', 0, kid)"
      and k: "fst ` set keys' = fst ` set (assign keys (TrimPrefix name KeyPrefix) v) \<union>
               (\<lambda>e. TrimPrefix (fst e) KeyPrefix) ` {e \<in> set xs. prefixed e}"
      by blast
    have "parse_loop (e # xs) (keys, 0, kid) = Inr (keys', 0, kid)"
      using True t r by (simp add: e parse_loop_good_head del: parse_loop.simps)
    moreover have "{e' \<in> set (e # xs). prefixed e'} = insert e {e' \<in> set xs. prefixed e'}"
      using True by (auto simp: e prefixed_def)
    then have "fst ` set keys' = fst ` set keys \<union>
        (\<lambda>e. TrimPrefix (fst e) KeyPrefix) ` {e' \<in> set (e # xs). prefixed e'}"
      using k by (simp add: e keys_assign)
    ultimately show ?thesis by blast
  qed
qed

text \<open>
  Claim C10. If a record has prefixed entries and all of them decode to timestamps that are
  not positive, \<^verbatim>\<open>ParseSigningKeysFromSecret\<close> returns without error a key map that is not
  empty together with the empty string as latest kid: the latest kid is only ever set by a
  timestamp greater than the initial 0. The empty string is no kid of that map, and
  \<^verbatim>\<open>UpdateKeys\<close> with this result is rejected with "latestKid not found in signingKeys",
  in every signer state.
\<close>

theorem nonpositive_timestamps_give_empty_latest_kid:
  assumes some: "\<exists>e \<in> set entries. prefixed e"
    and nonpos: "\<forall>e \<in> set entries. prefixed e \<longrightarrow> (\<exists>t. ParseKeyTimestamp (fst e) = Inr t \<and> t \<le> 0)"
  shows "\<exists>keys. ParseSigningKeysFromSecret (Some entries) = Inr (keys, '''') \<and> keys \<noteq> [] \<and>
           map_of keys '''' = None \<and> UpdateKeys s now keys '''' = Inl LatestKidNotFound"
proof -
  have np: "\<forall>e \<in> set entries. prefixed e \<longrightarrow>
              (\<exists>t. ParseInt (TrimPrefix (fst e) KeyPrefix) = Some t \<and> t \<le> 0)"
  proof (intro ballI impI)
    fix e assume "e \<in> set entries" "prefixed e"
    with nonpos obtain t where "ParseKeyTimestamp (fst e) = Inr t" "t \<le> 0" by blast
    then show "\<exists>t. ParseInt (TrimPrefix (fst e) KeyPrefix) = Some t \<and> t \<le> 0"
      by (auto simp: ParseKeyTimestamp_def split: if_splits option.splits)
  qed
  from parse_loop_nonpositive [OF np, of "[]" "''''"] obtain keys where
    r: "parse_loop entries ([], 0, '''') = Inr (keys, 0, '''')"
    and k: "fst ` set keys = (\<lambda>e. TrimPrefix (fst e) KeyPrefix) ` {e \<in> set entries. prefixed e}"
    by auto
  from some k have ne: "keys \<noteq> []" by auto
  have "'''' \<notin> fst ` set keys"
  proof
    assume "'''' \<in> fst ` set keys"
    with k obtain e where "e \<in> set entries" "prefixed e" "TrimPrefix (fst e) KeyPrefix = ''''"
      by auto
    with np show False by (auto simp: ParseInt_empty)
  qed
  then have none: "map_of keys '''' = None"
    by (simp add: map_of_eq_None_iff)
  from r ne have "ParseSigningKeysFromSecret (Some entries) = Inr (keys, '''')"
    by (simp add: ParseSigningKeysFromSecret_def)
  moreover from ne none have "UpdateKeys s now keys '''' = Inl LatestKidNotFound"
    by (simp add: UpdateKeys_def)
  ultimately show ?thesis using ne none by blast
qed

text \<open>An instance: the record whose only entry is \<^verbatim>\<open>jwt-signing-key-0\<close>.\<close>

lemma key0_prefixed: "HasPrefix ''jwt-signing-key-0'' KeyPrefix"
  by (simp add: HasPrefix_def KeyPrefix_def)

lemma key0_timestamp: "ParseKeyTimestamp ''jwt-signing-key-0'' = Inr 0"
proof -
  have "TrimPrefix ''jwt-signing-key-0'' KeyPrefix = ''0''"
    by (simp add: TrimPrefix_def HasPrefix_def KeyPrefix_def)
  moreover have "ParseInt ''0'' = Some 0"
    by (simp add: ParseInt_def is_digit_def digits_val_def digit_val_def)
  ultimately show ?thesis
    by (simp add: ParseKeyTimestamp_def key0_prefixed)
qed

theorem nonpositive_timestamps_give_empty_latest_kid_witness:
  "\<exists>keys. ParseSigningKeysFromSecret (Some recordZero) = Inr (keys, '''') \<and> keys \<noteq> [] \<and>
     map_of keys '''' = None \<and> UpdateKeys signerA 0 keys '''' = Inl LatestKidNotFound"
proof -
  have some: "\<exists>e \<in> set recordZero. prefixed e"
    by (simp add: recordZero_def prefixed_def key0_prefixed)
  have nonpos: "\<forall>e \<in> set recordZero. prefixed e \<longrightarrow> (\<exists>t. ParseKeyTimestamp (fst e) = Inr t \<and> t \<le> 0)"
    by (simp add: recordZero_def key0_timestamp)
  from nonpositive_timestamps_give_empty_latest_kid [OF some nonpos] show ?thesis .
qed

text \<open>
  Claim C8, as amended. Admission checks no key length: when a record parses and
  \<^verbatim>\<open>UpdateKeys\<close> accepts the result, every kid of the signer is mapped to exactly the
  bytes the record stores under \<^verbatim>\<open>jwt-signing-key-<kid>\<close>, whatever their length, and a
  kid without such an entry is not admitted.
\<close>

theorem admission_keeps_record_bytes:
  assumes "distinct (map fst entries)"
    and "ParseSigningKeysFromSecret (Some entries) = Inr (keys, newLatestKid)"
    and "UpdateKeys s now keys newLatestKid = Inr s'"
  shows "map_of (signingKeys s') kid = map_of entries (KeyPrefix @ kid)"
proof -
  have good: "\<forall>e \<in> set entries. prefixed e \<longrightarrow> ParseInt (TrimPrefix (fst e) KeyPrefix) \<noteq> None"
  proof (intro ballI impI notI)
    fix e assume "e \<in> set entries" "prefixed e" "ParseInt (TrimPrefix (fst e) KeyPrefix) = None"
    then have "\<exists>e \<in> set entries. prefixed e \<and> ParseInt (TrimPrefix (fst e) KeyPrefix) = None"
      by blast
    from parse_loop_malformed [OF this, of "([], 0, '''')"] assms(2) show False
      by (auto simp: ParseSigningKeysFromSecret_def)
  qed
  from parse_loop_accepts [OF assms(1) good, of "[]" 0 "''''"] obtain keys' ts' kid' where
    r: "parse_loop entries ([], 0, '''') = Inr (keys', ts', kid')"
    and m: "\<forall>k. map_of keys' k =
              (if KeyPrefix @ k \<in> fst ` set entries then map_of entries (KeyPrefix @ k) else None)"
    by auto
  from r assms(2) have "keys' = keys"
    by (simp add: ParseSigningKeysFromSecret_def split: if_splits)
  moreover from assms(3) have "signingKeys s' = keys"
    by (auto simp: UpdateKeys_def split: if_splits)
  moreover have "KeyPrefix @ kid \<notin> fst ` set entries \<Longrightarrow> map_of entries (KeyPrefix @ kid) = None"
    by (simp add: map_of_eq_None_iff)
  ultimately show ?thesis
    using m by (cases "KeyPrefix @ kid \<in> fst ` set entries") simp_all
qed

lemma key1000_prefixed: "HasPrefix ''jwt-signing-key-1000'' KeyPrefix"
  by (simp add: HasPrefix_def KeyPrefix_def)

lemma key1000_trim: "TrimPrefix ''jwt-signing-key-1000'' KeyPrefix = ''1000''"
  by (simp add: TrimPrefix_def HasPrefix_def KeyPrefix_def)

lemma ParseInt_1000: "ParseInt ''1000'' = Some 1000"
  by (simp add: ParseInt_def is_digit_def digits_val_def digit_val_def)

lemma ParseInt_999: "ParseInt ''999'' = Some 999"
  by (simp add: ParseInt_def is_digit_def digits_val_def digit_val_def)

lemma recordShort_parse:
  "ParseSigningKeysFromSecret (Some recordShort) = Inr ([(''1000'', Slice [107, 101, 121, 49])], ''1000'')"
  by (simp add: ParseSigningKeysFromSecret_def recordShort_def parse_loop_good_head
      key1000_prefixed key1000_trim ParseInt_1000 del: parse_loop.simps(2))

lemma recordShort_update:
  "UpdateKeys (NewStandardSigner ''iss'' ''aud'' (3600 * Second) 0) 7
     [(''1000'', Slice [107, 101, 121, 49])] ''1000'' = Inr signerShort"
  by (simp add: UpdateKeys_def NewStandardSigner_def signerShort_def added_step_def)

text \<open>
  Claim C8 as stated fails: the record \<^verbatim>\<open>jwt-signing-key-1000\<close> with the four bytes
  "key1" is parsed and admitted by \<^verbatim>\<open>UpdateKeys\<close>, and the signer then holds a key of
  length 4.
\<close>

theorem admission_accepts_short_key:
  "ParseSigningKeysFromSecret (Some recordShort) = Inr ([(''1000'', Slice [107, 101, 121, 49])], ''1000'')
   \<and> UpdateKeys (NewStandardSigner ''iss'' ''aud'' (3600 * Second) 0) 7
       [(''1000'', Slice [107, 101, 121, 49])] ''1000'' = Inr signerShort
   \<and> map_of (signingKeys signerShort) ''1000'' = Some (Slice [107, 101, 121, 49])
   \<and> len (Slice [107, 101, 121, 49]) \<noteq> KeySizeBytes"
  by (simp add: recordShort_parse recordShort_update signerShort_def KeySizeBytes_def)

text \<open>An instance of the amended statement at the same record.\<close>

theorem admission_keeps_record_bytes_witness:
  "map_of (signingKeys signerShort) ''1000'' = Some (Slice [107, 101, 121, 49])"
proof -
  have d: "distinct (map fst recordShort)"
    by (simp add: recordShort_def)
  have "map_of recordShort (KeyPrefix @ ''1000'') = Some (Slice [107, 101, 121, 49])"
    by (simp add: recordShort_def KeyPrefix_def)
  with admission_keeps_record_bytes [OF d recordShort_parse recordShort_update, of "''1000''"]
  show ?thesis by simp
qed

section \<open>Order of the kids in the key selection\<close>

text \<open>
  The kid selected is greatest among the kids past the cool-off in the order of Go's
  strings, which is bytewise lexicographic.
\<close>

lemma usable_fold_upper:
  "u \<le> foldl (usable_step d now) u xs \<and>
   (\<forall>(k, t) \<in> set xs. d \<le> time_sub now t \<longrightarrow> k \<le> foldl (usable_step d now) u xs)"
proof (induction xs arbitrary: u)
  case Nil
  then show ?case by simp
next
  case (Cons e xs)
  obtain k t where e: "e = (k, t)" by (cases e)
  let ?u' = "usable_step d now u e"
  have step: "u \<le> ?u' \<and> (d \<le> time_sub now t \<longrightarrow> k \<le> ?u')"
    by (auto simp: usable_step_def e)
  from Cons.IH [of ?u'] step e show ?case
    by (auto intro: order_trans)
qed

lemma selection_lexicographic:
  assumes "getLatestKidAndKeyWithCoolOff s now = (kid, key)" and "passed_cool_off s now k"
  shows "k \<le> kid"
proof -
  let ?r = "foldl (usable_step (newKeyUseDelay s) now) '''' (keyAddedTimes s)"
  from assms(2) obtain t where t: "map_of (keyAddedTimes s) k = Some t"
    and u: "newKeyUseDelay s \<le> time_sub now t"
    by (auto simp: passed_cool_off_def split: option.splits)
  from t have "(k, t) \<in> set (keyAddedTimes s)" by (rule map_of_SomeD)
  with usable_fold_upper [of "''''" "newKeyUseDelay s" now "keyAddedTimes s"] u
  have le: "k \<le> ?r" by auto
  from assms(1) have "kid = ?r"
    by (auto simp: getLatestKidAndKeyWithCoolOff_def Let_def split: if_splits)
  with le show ?thesis by simp
qed

lemma mixed_passed:
  "added = [(''999'', 0), (''1000'', 0)] \<or> added = [(''1000'', 0), (''999'', 0)] \<Longrightarrow>
   passed_cool_off (signerMixed added) (10 * Second) ''999'' \<and>
   passed_cool_off (signerMixed added) (10 * Second) ''1000''"
  by (auto simp: passed_cool_off_def signerMixed_def time_sub_def minDuration_def maxDuration_def
      Second_def)

lemma mixed_select:
  "added = [(''999'', 0), (''1000'', 0)] \<or> added = [(''1000'', 0), (''999'', 0)] \<Longrightarrow>
   getLatestKidAndKeyWithCoolOff (signerMixed added) (10 * Second) = (''999'', Slice [1])"
  by (auto simp: getLatestKidAndKeyWithCoolOff_def signerMixed_def usable_step_def time_sub_def
      minDuration_def maxDuration_def Second_def index_def)

text \<open>
  Claim C2 asks for the numerically greatest kid past the cool-off, also when the decimal
  strings differ in length. The code at such an input: the kids 999 and 1000 have both
  passed the cool-off, 999 is numerically smaller than 1000, and the selection returns
  999 in either iteration order; the token is signed with kid 999.
\<close>

theorem selection_prefers_999_over_1000:
  "passed_cool_off (signerMixed [(''999'', 0), (''1000'', 0)]) (10 * Second) ''1000''
   \<and> ParseInt ''999'' = Some 999 \<and> ParseInt ''1000'' = Some 1000
   \<and> getLatestKidAndKeyWithCoolOff (signerMixed [(''999'', 0), (''1000'', 0)]) (10 * Second)
       = (''999'', Slice [1])
   \<and> getLatestKidAndKeyWithCoolOff (signerMixed [(''1000'', 0), (''999'', 0)]) (10 * Second)
       = (''999'', Slice [1])
   \<and> map_sum id (\<lambda>tok. h_kid (Header tok))
         (GenerateToken hmacA (signerMixed [(''999'', 0), (''1000'', 0)])
            (10 * Second) (10 * Second) ''user'' [] ''uid'' [] '''' '''' '''') = Inr (Some ''999'')"
  by (simp add: mixed_passed mixed_select ParseInt_999 ParseInt_1000 GenerateToken_def Let_def)

section \<open>Decimal key names\<close>

lemma digit_char:
  assumes "d < 10"
  shows "is_digit (char_of (48 + d))" and "digit_val (char_of (48 + d)) = int d"
    and "char_of (48 + d) \<noteq> CHR ''+''" and "char_of (48 + d) \<noteq> CHR ''-''"
proof -
  have v: "of_char (char_of (48 + d)) = 48 + d"
    using assms by simp
  show "is_digit (char_of (48 + d))"
    unfolding is_digit_def less_eq_char_def v using assms by simp
  show "digit_val (char_of (48 + d)) = int d"
    unfolding digit_val_def v by simp
  show "char_of (48 + d) \<noteq> CHR ''+''"
  proof
    assume "char_of (48 + d) = CHR ''+''"
    then have "(of_char (char_of (48 + d)) :: nat) = of_char CHR ''+''" by simp
    with v show False by simp
  qed
  show "char_of (48 + d) \<noteq> CHR ''-''"
  proof
    assume "char_of (48 + d) = CHR ''-''"
    then have "(of_char (char_of (48 + d)) :: nat) = of_char CHR ''-''" by simp
    with v show False by simp
  qed
qed

lemma digits_val_snoc: "digits_val (ds @ [c]) = 10 * digits_val ds + digit_val c"
  by (simp add: digits_val_def)

lemma nat_digits_props:
  "list_all is_digit (nat_digits n) \<and> nat_digits n \<noteq> [] \<and> digits_val (nat_digits n) = int n
   \<and> hd (nat_digits n) \<noteq> CHR ''+'' \<and> hd (nat_digits n) \<noteq> CHR ''-''"
proof (induction n rule: nat_digits.induct)
  case (1 n)
  show ?case
  proof (cases "n < 10")
    case True
    then have "nat_digits n = [char_of (48 + n)]"
      by (subst nat_digits.simps) simp
    with digit_char [OF True] show ?thesis
      by (simp add: digits_val_def)
  next
    case False
    then have eq: "nat_digits n = nat_digits (n div 10) @ [char_of (48 + n mod 10)]"
      by (subst nat_digits.simps) simp
    have m: "n mod 10 < 10" by simp
    from 1 False have ih: "list_all is_digit (nat_digits (n div 10))" "nat_digits (n div 10) \<noteq> []"
      "digits_val (nat_digits (n div 10)) = int (n div 10)"
      "hd (nat_digits (n div 10)) \<noteq> CHR ''+''" "hd (nat_digits (n div 10)) \<noteq> CHR ''-''"
      by simp_all
    have "int (n div 10) * 10 + int (n mod 10) = int n"
      by (metis div_mult_mod_eq of_nat_add of_nat_mult of_nat_numeral)
    with ih digit_char [OF m] show ?thesis
      by (simp add: eq digits_val_snoc)
  qed
qed

lemma ParseInt_decimal:
  assumes "- (2 ^ 63) \<le> i" and "i < 2 ^ 63"
  shows "ParseInt (decimal i) = Some i"
proof (cases "i < 0")
  case True
  from nat_digits_props [of "nat (- i)"] True assms show ?thesis
    by (simp add: ParseInt_def decimal_def Let_def)
next
  case False
  from nat_digits_props [of "nat i"] False assms show ?thesis
    by (simp add: ParseInt_def decimal_def Let_def)
qed

lemma BuildKeyName_timestamp:
  assumes "- (2 ^ 63) \<le> now" and "now < 2 ^ 63"
  shows "HasPrefix (BuildKeyName now) KeyPrefix"
    and "ParseKeyTimestamp (BuildKeyName now) = Inr now"
  using ParseInt_decimal [OF assms]
  by (simp_all add: BuildKeyName_def ParseKeyTimestamp_def has_prefix_append trim_prefix_append)

section \<open>Rotation\<close>

lemma well_formed_timestamp:
  "well_formed (name, v) \<longleftrightarrow> HasPrefix name KeyPrefix \<and> ParseKeyTimestamp name = Inr (timestamp_of name)"
  by (auto simp: well_formed_def prefixed_def ParseKeyTimestamp_def timestamp_of_def
      split: option.splits)

lemma collect_keys_valid: "collect_keys data = map to_entry (valid_entries data)"
proof (induction data)
  case Nil
  then show ?case by (simp add: valid_entries_def)
next
  case (Cons e data)
  obtain name v where e: "e = (name, v)" by (cases e)
  show ?case
  proof (cases "well_formed (name, v)")
    case True
    then have "HasPrefix name KeyPrefix" "ParseKeyTimestamp name = Inr (timestamp_of name)"
      by (simp_all add: well_formed_timestamp)
    with True Cons.IH show ?thesis
      by (simp add: e valid_entries_def to_entry_def)
  next
    case False
    then have "\<not> HasPrefix name KeyPrefix \<or> (\<exists>err. ParseKeyTimestamp name = Inl err)"
      by (auto simp: well_formed_def prefixed_def ParseKeyTimestamp_def)
    with False Cons.IH show ?thesis
      by (auto simp: e valid_entries_def)
  qed
qed

lemma delete_fold:
  "foldl (\<lambda>d k. delete d (entry_name k)) data ks = filter (\<lambda>e. fst e \<notin> entry_name ` set ks) data"
proof (induction ks arbitrary: data)
  case Nil
  then show ?case by simp
next
  case (Cons k ks)
  have "filter (\<lambda>e. fst e \<notin> entry_name ` set ks) (delete data (entry_name k)) =
        filter (\<lambda>e. fst e \<notin> entry_name ` set (k # ks)) data"
    by (induction data) (auto simp: delete_def)
  with Cons.IH [of "delete data (entry_name k)"] show ?case by simp
qed

lemma valid_entries_filter: "valid_entries (filter P data) = filter P (valid_entries data)"
  by (induction data) (auto simp: valid_entries_def)

lemma assign_fresh: "k \<notin> fst ` set m \<Longrightarrow> assign m k v = m @ [(k, v)]"
  by (induction m) auto

lemma distinct_take_drop_filter:
  "distinct ps \<Longrightarrow> filter (\<lambda>y. y \<notin> set (take m ps)) ps = drop m ps"
proof -
  assume d: "distinct ps"
  have "distinct (take m ps @ drop m ps)" using d by simp
  then have disj: "set (take m ps) \<inter> set (drop m ps) = {}" by (simp only: distinct_append)
  have "filter (\<lambda>y. y \<notin> set (take m ps)) (take m ps @ drop m ps) = drop m ps"
    unfolding filter_append using disj by (auto simp: filter_empty_conv filter_id_conv)
  then show ?thesis by simp
qed

lemma pruned_length:
  assumes "distinct (map f xs)" and "mset ps = mset (map f xs)"
  shows "length (filter (\<lambda>x. f x \<notin> set (take m ps)) xs) = length xs - m"
proof -
  let ?P = "\<lambda>y. y \<notin> set (take m ps)"
  have dps: "distinct ps"
    using assms by (metis mset_eq_imp_distinct_iff)
  have "length (filter (\<lambda>x. f x \<notin> set (take m ps)) xs) = length (filter ?P (map f xs))"
    by (simp add: filter_map comp_def)
  also have "\<dots> = size (filter_mset ?P (mset (map f xs)))"
    by (simp only: mset_filter [symmetric] size_mset)
  also have "\<dots> = size (filter_mset ?P (mset ps))"
    by (simp only: assms(2))
  also have "\<dots> = length (filter ?P ps)"
    by (simp only: mset_filter [symmetric] size_mset)
  also have "\<dots> = length ps - m"
    by (simp add: distinct_take_drop_filter [OF dps])
  also have "length ps = length xs"
    using assms(2) by (metis length_map size_mset)
  finally show ?thesis .
qed

lemma rotate_success:
  assumes srt: "sorts_by_timestamp sortSlice"
    and rng: "- (2 ^ 63) \<le> now" "now < 2 ^ 63"
    and data: "data = (case secretData of None \<Rightarrow> [] | Some m \<Rightarrow> m)"
    and run: "RotateSecret sortSlice (Some secretData) rand now updateOk numberOfKeys = Inr data'"
  shows "\<exists>newKey keys1 m.
           GenerateKey rand = Inr newKey \<and> 1 \<le> numberOfKeys \<and>
           BuildKeyName now \<notin> fst ` set data \<and>
           valid_entries (data @ [(BuildKeyName now, newKey)])
             = valid_entries data @ [(BuildKeyName now, newKey)] \<and>
           mset keys1 = mset (map to_entry (valid_entries data @ [(BuildKeyName now, newKey)])) \<and>
           sorted (map entry_timestamp keys1) \<and>
           m = (if int (length keys1) > numberOfKeys then nat (int (length keys1) - numberOfKeys) else 0) \<and>
           data' = filter (\<lambda>e. fst e \<notin> entry_name ` set (take m keys1))
                     (data @ [(BuildKeyName now, newKey)])"
proof -
  let ?name = "BuildKeyName now"
  let ?keys = "sortSlice (collect_keys data)"
  from run have n1: "1 \<le> numberOfKeys"
    by (simp add: RotateSecret_def split: if_splits)
  from run n1 obtain newKey where gen: "GenerateKey rand = Inr newKey"
    by (cases "GenerateKey rand") (simp_all add: RotateSecret_def data Let_def)
  let ?new = "\<lparr>entry_name = ?name, entry_timestamp = now, entry_value = newKey\<rparr>"
  let ?keys1 = "sortSlice (?keys @ [?new])"
  let ?m = "if int (length ?keys1) > numberOfKeys then nat (int (length ?keys1) - numberOfKeys) else 0"
  from run n1 gen have nocoll: "\<not> list_ex (\<lambda>k. entry_name k = ?name) ?keys"
    by (auto simp: RotateSecret_def data Let_def split: if_splits)
  from run n1 gen nocoll have res: "data' =
      (if int (length ?keys1) > numberOfKeys
       then foldl (\<lambda>d k. delete d (entry_name k)) (assign data ?name newKey)
              (take (nat (int (length ?keys1) - numberOfKeys)) ?keys1)
       else assign data ?name newKey)"
    by (auto simp: RotateSecret_def data Let_def split: if_splits)
  have wf: "\<And>v. well_formed (?name, v)"
    using BuildKeyName_timestamp [OF rng]
    by (auto simp: well_formed_def prefixed_def ParseKeyTimestamp_def split: option.splits)
  have ts: "timestamp_of ?name = now"
    using BuildKeyName_timestamp [OF rng] by (simp add: timestamp_of_def)
  from srt have keys_set: "set ?keys = set (collect_keys data)"
    unfolding sorts_by_timestamp_def by (metis mset_eq_setD)
  have fresh: "?name \<notin> fst ` set data"
  proof
    assume "?name \<in> fst ` set data"
    then obtain v where v: "(?name, v) \<in> set data" by auto
    with wf have "(?name, v) \<in> set (valid_entries data)"
      by (simp add: valid_entries_def)
    then have "to_entry (?name, v) \<in> set (collect_keys data)"
      by (simp add: collect_keys_valid)
    then have "to_entry (?name, v) \<in> set ?keys"
      by (simp only: keys_set)
    then have "list_ex (\<lambda>k. entry_name k = ?name) ?keys"
      unfolding list_ex_iff by (rule bexI [rotated]) (simp add: to_entry_def)
    with nocoll show False by simp
  qed
  have d1: "assign data ?name newKey = data @ [(?name, newKey)]"
    using fresh by (rule assign_fresh)
  have v1: "valid_entries (data @ [(?name, newKey)]) = valid_entries data @ [(?name, newKey)]"
    using wf by (simp add: valid_entries_def)
  have new: "to_entry (?name, newKey) = ?new"
    by (simp add: to_entry_def ts)
  from srt have "mset ?keys1 = mset (?keys @ [?new])"
    unfolding sorts_by_timestamp_def by blast
  also from srt have "\<dots> = mset (collect_keys data @ [?new])"
    unfolding sorts_by_timestamp_def by simp
  finally have ms: "mset ?keys1 = mset (map to_entry (valid_entries data @ [(?name, newKey)]))"
    by (simp add: collect_keys_valid new)
  from srt have so: "sorted (map entry_timestamp ?keys1)"
    unfolding sorts_by_timestamp_def by blast
  have "data' = filter (\<lambda>e. fst e \<notin> entry_name ` set (take ?m ?keys1)) (data @ [(?name, newKey)])"
    unfolding res d1 by (simp add: delete_fold)
  with gen n1 fresh v1 ms so show ?thesis
    by blast
qed


lemma GenerateKey_length: "GenerateKey rand = Inr newKey \<Longrightarrow> len newKey = KeySizeBytes"
  by (auto simp: GenerateKey_def split: option.splits)

lemma sorted_take_drop:
  assumes "sorted (map f xs)" and "a \<in> set (take m xs)" and "b \<in> set (drop m xs)"
  shows "f a \<le> f b"
proof -
  have "sorted (map f (take m xs) @ map f (drop m xs))"
    using assms(1) by (simp only: map_append [symmetric] append_take_drop_id)
  with assms(2,3) show ?thesis
    by (auto simp: sorted_append)
qed

text \<open>
  Claim C6, as amended. Take a record with \<open>v\<close> well-formed signing-key entries, a
  retention \<open>numberOfKeys\<close> of at least 1 and a rotation that succeeds, whatever order
  \<^verbatim>\<open>sort.Slice\<close> gives to equal timestamps. Afterwards the record has exactly
  \<open>min (v + 1) numberOfKeys\<close> well-formed entries; they are entries of the old record or
  the new 48-byte key; every well-formed entry that was pruned has a timestamp no greater
  than that of every entry that was kept. The new key is kept when its timestamp is greater
  than all the old ones, and when nothing has to be pruned.
\<close>

theorem rotate_retention:
  assumes srt: "sorts_by_timestamp sortSlice"
    and dist: "distinct (map fst data)"
    and rng: "- (2 ^ 63) \<le> now" "now < 2 ^ 63"
    and data: "data = (case secretData of None \<Rightarrow> [] | Some m \<Rightarrow> m)"
    and run: "RotateSecret sortSlice (Some secretData) rand now updateOk numberOfKeys = Inr data'"
  shows "length (valid_entries data') = min (length (valid_entries data) + 1) (nat numberOfKeys)
     \<and> (\<exists>newKey. GenerateKey rand = Inr newKey \<and> len newKey = KeySizeBytes \<and>
          set (valid_entries data') \<subseteq> set (valid_entries data) \<union> {(BuildKeyName now, newKey)} \<and>
          (\<forall>kept \<in> set (valid_entries data').
             \<forall>e \<in> set (valid_entries data) \<union> {(BuildKeyName now, newKey)}.
               e \<notin> set (valid_entries data') \<longrightarrow> timestamp_of (fst e) \<le> timestamp_of (fst kept)) \<and>
          ((\<forall>e \<in> set (valid_entries data). timestamp_of (fst e) < now) \<longrightarrow>
             (BuildKeyName now, newKey) \<in> set (valid_entries data')) \<and>
          (int (length (valid_entries data)) + 1 \<le> numberOfKeys \<longrightarrow>
             (BuildKeyName now, newKey) \<in> set (valid_entries data')))"
proof -
  let ?name = "BuildKeyName now"
  from rotate_success [OF srt rng data run] obtain newKey keys1 m where
    gen: "GenerateKey rand = Inr newKey" and n1: "1 \<le> numberOfKeys"
    and fresh: "?name \<notin> fst ` set data"
    and v1: "valid_entries (data @ [(?name, newKey)]) = valid_entries data @ [(?name, newKey)]"
    and ms: "mset keys1 = mset (map to_entry (valid_entries data @ [(?name, newKey)]))"
    and so: "sorted (map entry_timestamp keys1)"
    and m: "m = (if int (length keys1) > numberOfKeys then nat (int (length keys1) - numberOfKeys) else 0)"
    and res: "data' = filter (\<lambda>e. fst e \<notin> entry_name ` set (take m keys1)) (data @ [(?name, newKey)])"
    by blast
  let ?new = "(?name, newKey)"
  let ?V1 = "valid_entries data @ [?new]"
  let ?R = "\<lambda>e. fst e \<notin> entry_name ` set (take m keys1)"
  have vd: "valid_entries data' = filter ?R ?V1"
    unfolding res by (simp only: valid_entries_filter v1)
  have in_vd: "\<And>x. x \<in> set (valid_entries data') \<longleftrightarrow> x \<in> set ?V1 \<and> ?R x"
    by (simp only: vd set_filter mem_Collect_eq)
  have ts: "timestamp_of ?name = now"
    using BuildKeyName_timestamp [OF rng] by (simp add: timestamp_of_def)
  have keys_set: "set keys1 = to_entry ` set ?V1"
    using ms by (metis mset_eq_setD set_map)
  have names: "mset (map entry_name keys1) = mset (map fst ?V1)"
  proof -
    have "mset (map entry_name keys1) = image_mset entry_name (mset keys1)" by simp
    also have "\<dots> = image_mset entry_name (mset (map to_entry ?V1))" by (simp only: ms)
    also have "\<dots> = mset (map fst ?V1)" by (simp add: to_entry_def comp_def multiset.map_comp)
    finally show ?thesis .
  qed
  have dV1: "distinct (map fst ?V1)"
  proof -
    have "distinct (map fst (data @ [?new]))" using dist fresh by simp
    then have "distinct (map fst (valid_entries (data @ [?new])))"
      unfolding valid_entries_def by (rule distinct_map_filter)
    then show ?thesis by (simp only: v1)
  qed
  have dn: "distinct (map entry_name keys1)"
    using names dV1 by (metis mset_eq_imp_distinct_iff)
  then have dk: "distinct keys1" by (simp add: distinct_map)
  have tk: "entry_name ` set (take m keys1) = set (take m (map entry_name keys1))"
    by (simp add: take_map)
  have len1: "length keys1 = length (valid_entries data) + 1"
    using ms by (metis length_append_singleton length_map size_mset Suc_eq_plus1)
  have "length (filter ?R ?V1) = length ?V1 - m"
    unfolding tk using dV1 names by (rule pruned_length)
  with len1 n1 have count: "length (valid_entries data') = min (length (valid_entries data) + 1) (nat numberOfKeys)"
    unfolding vd m by auto
  have sub: "set (valid_entries data') \<subseteq> set (valid_entries data) \<union> {?new}"
    using in_vd by auto
  have entry_ts: "\<And>a. a \<in> set keys1 \<Longrightarrow> entry_timestamp a = timestamp_of (entry_name a)"
    unfolding keys_set by (auto simp: to_entry_def)
  have kept_drop: "\<And>x. x \<in> set ?V1 \<Longrightarrow> ?R x \<Longrightarrow> to_entry x \<in> set (drop m keys1)"
  proof -
    fix x assume x: "x \<in> set ?V1" and r: "?R x"
    from x have "to_entry x \<in> set (take m keys1 @ drop m keys1)"
      by (simp only: append_take_drop_id keys_set) blast
    moreover from r have "to_entry x \<notin> set (take m keys1)"
      by (force simp: to_entry_def)
    ultimately show "to_entry x \<in> set (drop m keys1)" by (auto simp only: set_append)
  qed
  have recent: "\<forall>kept \<in> set (valid_entries data'). \<forall>e \<in> set (valid_entries data) \<union> {?new}.
      e \<notin> set (valid_entries data') \<longrightarrow> timestamp_of (fst e) \<le> timestamp_of (fst kept)"
  proof (intro ballI impI)
    fix kept e
    assume k: "kept \<in> set (valid_entries data')" and e: "e \<in> set (valid_entries data) \<union> {?new}"
      and out: "e \<notin> set (valid_entries data')"
    from k have "kept \<in> set ?V1" "?R kept" using in_vd by blast+
    then have kd: "to_entry kept \<in> set (drop m keys1)" by (rule kept_drop)
    from e have "e \<in> set ?V1" by auto
    with out have "\<not> ?R e" using in_vd by blast
    then obtain a where a: "a \<in> set (take m keys1)" "entry_name a = fst e" by auto
    from a(1) have "a \<in> set keys1" by (rule in_set_takeD)
    then have "entry_timestamp a = timestamp_of (fst e)"
      using entry_ts a(2) by simp
    moreover have "entry_timestamp (to_entry kept) = timestamp_of (fst kept)"
      by (simp add: to_entry_def)
    moreover from sorted_take_drop [OF so a(1) kd] have "entry_timestamp a \<le> entry_timestamp (to_entry kept)" .
    ultimately show "timestamp_of (fst e) \<le> timestamp_of (fst kept)" by simp
  qed
  have incl: "(\<forall>e \<in> set (valid_entries data). timestamp_of (fst e) < now) \<longrightarrow>
      ?new \<in> set (valid_entries data')"
  proof (intro impI, rule ccontr)
    assume old: "\<forall>e \<in> set (valid_entries data). timestamp_of (fst e) < now"
      and out: "?new \<notin> set (valid_entries data')"
    have "?new \<in> set ?V1" by simp
    with out have "\<not> ?R ?new" using in_vd by blast
    then obtain a where a: "a \<in> set (take m keys1)" "entry_name a = ?name" by auto
    from a(1) have mpos: "0 < m" by (cases m) auto
    with m n1 have "m < length keys1"
      by (auto split: if_splits)
    then have "drop m keys1 \<noteq> []" by simp
    then obtain b where b: "b \<in> set (drop m keys1)" by (cases "drop m keys1") auto
    from a(1) have ak: "a \<in> set keys1" by (rule in_set_takeD)
    from b have bk: "b \<in> set keys1" by (rule in_set_dropD)
    from ak a(2) have "entry_timestamp a = now"
      using entry_ts ts by simp
    with sorted_take_drop [OF so a(1) b] have le: "now \<le> entry_timestamp b" by simp
    from bk obtain y where y: "y \<in> set ?V1" "b = to_entry y"
      unfolding keys_set by blast
    have "distinct (take m keys1 @ drop m keys1)" using dk by simp
    with a(1) b have ab: "a \<noteq> b" by (auto simp only: distinct_append)
    have "fst y \<noteq> ?name"
    proof
      assume "fst y = ?name"
      with y(2) a(2) have "entry_name b = entry_name a" by (simp add: to_entry_def)
      with dn ak bk have "a = b" by (metis distinct_map inj_onD)
      with ab show False by simp
    qed
    with y(1) have "y \<in> set (valid_entries data)" by auto
    with old have "timestamp_of (fst y) < now" by blast
    with y(2) le show False by (simp add: to_entry_def)
  qed
  have room: "int (length (valid_entries data)) + 1 \<le> numberOfKeys \<longrightarrow>
      ?new \<in> set (valid_entries data')"
  proof
    assume "int (length (valid_entries data)) + 1 \<le> numberOfKeys"
    with len1 m have "m = 0" by simp
    then show "?new \<in> set (valid_entries data')"
      by (simp add: in_vd)
  qed
  from count gen GenerateKey_length [OF gen] sub recent incl room show ?thesis
    by blast
qed

text \<open>
  Concrete runs use insertion sort by timestamp for \<^verbatim>\<open>sort.Slice\<close>, which is one of its
  possible outcomes.
\<close>

lemma sort_key_sorts: "sorts_by_timestamp (sort_key entry_timestamp)"
  by (simp add: sorts_by_timestamp_def)

lemma key5000_name:
  "HasPrefix ''jwt-signing-key-5000'' KeyPrefix"
  "ParseKeyTimestamp ''jwt-signing-key-5000'' = Inr 5000"
proof -
  show p: "HasPrefix ''jwt-signing-key-5000'' KeyPrefix"
    by (simp add: HasPrefix_def KeyPrefix_def)
  have "TrimPrefix ''jwt-signing-key-5000'' KeyPrefix = ''5000''"
    by (simp add: TrimPrefix_def HasPrefix_def KeyPrefix_def)
  moreover have "ParseInt ''5000'' = Some 5000"
    by (simp add: ParseInt_def is_digit_def digits_val_def digit_val_def)
  ultimately show "ParseKeyTimestamp ''jwt-signing-key-5000'' = Inr 5000"
    by (simp add: ParseKeyTimestamp_def p)
qed

lemma record5000_keys:
  "collect_keys record5000 =
     [\<lparr>entry_name = ''jwt-signing-key-5000'', entry_timestamp = 5000, entry_value = Slice [1]\<rparr>]"
  by (simp add: record5000_def key5000_name)

lemma digit_chars:
  "char_of (48 :: nat) = CHR ''0''" "char_of (52 :: nat) = CHR ''4''" "char_of (54 :: nat) = CHR ''6''"
  by (simp_all add: char_of_def bit_Suc_0_iff)

lemma name4000: "BuildKeyName 4000 = ''jwt-signing-key-4000''"
  by (simp add: BuildKeyName_def KeyPrefix_def decimal_def nat_digits.simps digit_chars)

lemma name6000: "BuildKeyName 6000 = ''jwt-signing-key-6000''"
  by (simp add: BuildKeyName_def KeyPrefix_def decimal_def nat_digits.simps digit_chars)

text \<open>
  Claim C6 as stated fails where it says that the new key is always among the entries
  kept: with retention 1, a record holding \<^verbatim>\<open>jwt-signing-key-5000\<close> and the clock at
  second 4000, the rotation succeeds and writes back the record it found; the new key
  \<^verbatim>\<open>jwt-signing-key-4000\<close> is the oldest entry and is pruned at once.
\<close>

theorem rotate_can_prune_the_new_key:
  "RotateSecret (sort_key entry_timestamp) (Some (Some record5000)) (Some sevens) 4000 True 1
     = Inr record5000
   \<and> map_of record5000 (BuildKeyName 4000) = None"
  by (simp add: RotateSecret_def GenerateKey_def record5000_keys name4000 delete_def)
    (simp add: record5000_def)

text \<open>An instance of the amended statement: the same record, the clock at second 6000.\<close>

theorem rotate_retention_witness:
  "\<exists>data'. RotateSecret (sort_key entry_timestamp) (Some (Some record5000)) (Some sevens) 6000 True 1
       = Inr data' \<and>
     length (valid_entries data') = 1 \<and>
     (BuildKeyName 6000, Slice (map sevens [0..<KeySizeBytes])) \<in> set (valid_entries data')"
proof -
  have run: "RotateSecret (sort_key entry_timestamp) (Some (Some record5000)) (Some sevens) 6000 True 1
      = Inr [(''jwt-signing-key-6000'', Slice (map sevens [0..<KeySizeBytes]))]"
    by (simp add: RotateSecret_def GenerateKey_def record5000_keys name6000 delete_def)
      (simp add: record5000_def)
  have d: "distinct (map fst record5000)"
    by (simp add: record5000_def)
  have c: "record5000 = (case Some record5000 of None \<Rightarrow> [] | Some m \<Rightarrow> m)"
    by simp
  have v: "valid_entries record5000 = record5000"
    by (simp add: valid_entries_def well_formed_timestamp record5000_def key5000_name timestamp_of_def)
  have old: "\<forall>e \<in> set (valid_entries record5000). timestamp_of (fst e) < 6000"
    by (simp add: v) (simp add: record5000_def timestamp_of_def key5000_name)
  have g: "GenerateKey (Some sevens) = Inr (Slice (map sevens [0..<KeySizeBytes]))"
    by (simp add: GenerateKey_def)
  from rotate_retention [OF sort_key_sorts d _ _ c run] old g v
  have "length (valid_entries [(''jwt-signing-key-6000'', Slice (map sevens [0..<KeySizeBytes]))]) = 1
      \<and> (BuildKeyName 6000, Slice (map sevens [0..<KeySizeBytes]))
          \<in> set (valid_entries [(''jwt-signing-key-6000'', Slice (map sevens [0..<KeySizeBytes]))])"
    by (simp add: record5000_def)
  with run show ?thesis by blast
qed

section \<open>Validation\<close>

text \<open>
  \<^verbatim>\<open>ValidateToken\<close> never returns \<open>ErrInvalidClaims\<close>: a parse without error yields a
  valid token whose claims have the expected type. Every error of the library that is
  neither an expiry nor an invalid signature is returned wrapped in \<open>ErrInvalidToken\<close>.
\<close>

lemma HS384_registered: "''HS384'' \<in> set signing_methods" "''HS384'' \<in> set hmac_methods"
  by (simp_all add: signing_methods_def hmac_methods_def)

text \<open>
  Claim C4, as amended. A token whose header names an algorithm other than HS384 never
  validates. When the name is a signing method registered with the JWT library (HS256,
  HS512, the RS, PS and ES families, EdDSA, none), the option \<^verbatim>\<open>WithValidMethods\<close> rejects
  it before any key is looked up and the failure is \<open>ErrInvalidSignature\<close>, whatever the
  signature and the key. When the name is unknown to the library, the token is unverifiable
  and the failure is the fallback \<open>ErrInvalidToken\<close>.
\<close>

theorem other_algorithms_rejected:
  assumes "h_alg (Header tok) = Some a" and "a \<noteq> ''HS384''"
  shows "(a \<in> set signing_methods \<longrightarrow>
            ValidateToken hm s now (Some tok) = Inl ErrInvalidSignature)
       \<and> (a \<notin> set signing_methods \<longrightarrow>
            ValidateToken hm s now (Some tok) = Inl (ErrInvalidToken (TokenUnverifiable None)))"
  using assms by (simp add: ValidateToken_def ParseWithClaims_def)

text \<open>
  An instance (scenario S5): a token with \<^verbatim>\<open>alg = HS256\<close> signed with the bytes of the
  known kid 1000.
\<close>

theorem other_algorithms_rejected_witness:
  "ValidateToken hmacA signerA (10 * Second) (Some tokenHS256) = Inl ErrInvalidSignature"
proof -
  have a: "h_alg (Header tokenHS256) = Some ''HS256''" by (simp add: tokenHS256_def)
  have n: "''HS256'' \<noteq> ''HS384''" by simp
  have r: "''HS256'' \<in> set signing_methods" by (simp add: signing_methods_def)
  from other_algorithms_rejected [OF a n] r show ?thesis by blast
qed

text \<open>
  Claim C4 as stated fails for an algorithm name the library does not register, such as
  ES256K: the failure is then not \<open>ErrInvalidSignature\<close>.
\<close>

theorem unregistered_algorithm_is_invalid_token:
  "h_alg (Header tokenES256K) = Some ''ES256K''
   \<and> ValidateToken hmacA signerA (10 * Second) (Some tokenES256K)
       = Inl (ErrInvalidToken (TokenUnverifiable None))
   \<and> ValidateToken hmacA signerA (10 * Second) (Some tokenES256K) \<noteq> Inl ErrInvalidSignature"
  by (simp add: ValidateToken_def ParseWithClaims_def tokenES256K_def signing_methods_def)

text \<open>
  Claim C5. A token with \<^verbatim>\<open>alg = HS384\<close> whose kid is a non-empty string that is not in
  the key set of the verifier never validates, and the failure is the unknown-kid failure
  of the code: the key function's error "unknown key ID: <kid>" for that very kid, which
  the library reports as an unverifiable token and \<^verbatim>\<open>ValidateToken\<close> returns wrapped in
  \<open>ErrInvalidToken\<close>. The signature, the claims and the clock play no part.
\<close>

theorem unknown_kid_rejected:
  assumes "h_alg (Header tok) = Some ''HS384''" and "h_kid (Header tok) = Some kid"
    and "kid \<noteq> ''''" and "map_of (signingKeys s) kid = None"
  shows "ValidateToken hm s now (Some tok)
           = Inl (ErrInvalidToken (TokenUnverifiable (Some (UnknownKeyID kid))))"
  using assms
  by (simp add: ValidateToken_def ParseWithClaims_def keyFunc_def index_def HS384_registered)

text \<open>An instance: kid 9999 presented to a signer that holds kid 1000 only.\<close>

theorem unknown_kid_rejected_witness:
  "ValidateToken hmacA signerA (10 * Second) (Some tokenKid9999)
     = Inl (ErrInvalidToken (TokenUnverifiable (Some (UnknownKeyID ''9999''))))"
proof -
  have a: "h_alg (Header tokenKid9999) = Some ''HS384''" by (simp add: tokenKid9999_def)
  have k: "h_kid (Header tokenKid9999) = Some ''9999''" by (simp add: tokenKid9999_def)
  have n: "''9999'' \<noteq> ''''" by simp
  have m: "map_of (signingKeys signerA) ''9999'' = None" by (simp add: signerA_def)
  from unknown_kid_rejected [OF a k n m] show ?thesis .
qed

text \<open>
  The unknown-kid failure is returned for no other reason: when \<^verbatim>\<open>ValidateToken\<close> fails
  with "unknown key ID: <kid>", the token has \<^verbatim>\<open>alg = HS384\<close>, its kid is that non-empty
  string, and the key set has no key for it (none at all, or \<^verbatim>\<open>nil\<close>).
\<close>

lemma unknown_kid_failure_only:
  assumes "ValidateToken hm s now tokenString
             = Inl (ErrInvalidToken (TokenUnverifiable (Some (UnknownKeyID kid))))"
  shows "\<exists>tok. tokenString = Some tok \<and> h_alg (Header tok) = Some ''HS384'' \<and>
           h_kid (Header tok) = Some kid \<and> kid \<noteq> '''' \<and>
           index (signingKeys s) kid = NilSlice"
proof -
  let ?r = "ParseWithClaims hm (keyFunc s) (issuer s) (audience s) [''HS384''] (5 * Second)
              now tokenString"
  from assms have r: "?r = Inl (TokenUnverifiable (Some (UnknownKeyID kid)))"
    by (auto simp: ValidateToken_def split: sum.splits if_splits)
  then obtain tok where t: "tokenString = Some tok"
    by (cases tokenString) (simp_all add: ParseWithClaims_def)
  from r t obtain a where a: "h_alg (Header tok) = Some a"
    by (cases "h_alg (Header tok)") (simp_all add: ParseWithClaims_def)
  from r t a have hs: "a = ''HS384''"
    by (auto simp: ParseWithClaims_def split: if_splits)
  from r t a hs have kf: "keyFunc s tok = Inl (UnknownKeyID kid)"
    by (auto simp: ParseWithClaims_def HS384_registered split: sum.splits if_splits list.splits)
  with a hs have "h_kid (Header tok) = Some kid \<and> kid \<noteq> '''' \<and>
      index (signingKeys s) kid = NilSlice"
    by (auto simp: keyFunc_def HS384_registered split: option.splits if_splits byteslice.splits)
  with t a hs show ?thesis by simp
qed

section \<open>Signing and validating\<close>

text \<open>
  In a signer whose kids past the cool-off are non-empty strings with a key that is not
  \<^verbatim>\<open>nil\<close>, one kid past the cool-off is enough for \<^verbatim>\<open>GenerateToken\<close> to return a token.
\<close>

lemma generate_succeeds:
  assumes dist: "distinct (map fst (keyAddedTimes s))"
    and some: "passed_cool_off s now0 k"
    and inv: "\<forall>kid. passed_cool_off s now0 kid \<longrightarrow>
                kid \<noteq> '''' \<and> (\<exists>key. map_of (signingKeys s) kid = Some (Slice key))"
  shows "\<exists>tok. GenerateToken hm s now0 now username groups uid extra path domain tokenType = Inr tok"
proof -
  obtain kid sk where sel: "getLatestKidAndKeyWithCoolOff s now0 = (kid, sk)"
    by (cases "getLatestKidAndKeyWithCoolOff s now0")
  from selection_lexicographic [OF sel some] have "k \<le> kid" .
  moreover from some inv have "k \<noteq> ''''" by blast
  ultimately have ne: "kid \<noteq> ''''" by auto
  from selection_passed [OF dist sel ne] have "passed_cool_off s now0 kid"
    and sk: "sk = index (signingKeys s) kid" by simp_all
  with inv obtain key where "map_of (signingKeys s) kid = Some (Slice key)" by blast
  with sk have "sk = Slice key" by (simp add: index_def)
  with sel ne show ?thesis
    by (simp add: GenerateToken_def Let_def)
qed


lemma generate_token_shape:
  assumes "GenerateToken hm s now0 now username groups uid extra path domain tokenType = Inr tok"
  shows "\<exists>kid key. kid \<noteq> '''' \<and> index (signingKeys s) kid = Slice key \<and>
           Header tok = \<lparr>h_alg = Some ''HS384'', h_kid = Some kid\<rparr> \<and>
           TokenClaims tok = \<lparr>ExpiresAt = Some (NewNumericDate (now + expiration s)),
                              IssuedAt = Some (NewNumericDate now),
                              NotBefore = Some (NewNumericDate now),
                              Issuer = issuer s, Audience = [audience s],
                              Subject = username, User = username, Groups = groups, UID = uid,
                              Extra = extra, Path = path, DomainName = domain,
                              TokenType = tokenType, SkipRefresh = False\<rparr> \<and>
           Signature tok = hm key (Header tok, TokenClaims tok)"
proof -
  obtain kid sk where sel: "getLatestKidAndKeyWithCoolOff s now0 = (kid, sk)"
    by (cases "getLatestKidAndKeyWithCoolOff s now0")
  with assms obtain key where k: "sk = Slice key" and ne: "kid \<noteq> ''''"
    by (cases sk) (auto simp: GenerateToken_def split: if_splits)
  from sel ne have "sk = index (signingKeys s) kid"
    by (auto simp: getLatestKidAndKeyWithCoolOff_def Let_def split: if_splits)
  with k have "index (signingKeys s) kid = Slice key" by simp
  moreover from assms sel k ne have
    "tok = \<lparr>Header = \<lparr>h_alg = Some ''HS384'', h_kid = Some kid\<rparr>,
       TokenClaims = \<lparr>ExpiresAt = Some (NewNumericDate (now + expiration s)),
                              IssuedAt = Some (NewNumericDate now),
                              NotBefore = Some (NewNumericDate now),
                              Issuer = issuer s, Audience = [audience s],
                              Subject = username, User = username, Groups = groups, UID = uid,
                              Extra = extra, Path = path, DomainName = domain,
                              TokenType = tokenType, SkipRefresh = False\<rparr>,
       Signature = hm key (\<lparr>h_alg = Some ''HS384'', h_kid = Some kid\<rparr>,
          \<lparr>ExpiresAt = Some (NewNumericDate (now + expiration s)),
                              IssuedAt = Some (NewNumericDate now),
                              NotBefore = Some (NewNumericDate now),
                              Issuer = issuer s, Audience = [audience s],
                              Subject = username, User = username, Groups = groups, UID = uid,
                              Extra = extra, Path = path, DomainName = domain,
                              TokenType = tokenType, SkipRefresh = False\<rparr>)\<rparr>"
    by (simp add: GenerateToken_def Let_def)
  ultimately show ?thesis using ne by auto
qed

lemma validate_generated_claims:
  assumes c: "c = \<lparr>ExpiresAt = Some (NewNumericDate (now + expiration s)),
                    IssuedAt = Some (NewNumericDate now), NotBefore = Some (NewNumericDate now),
                    Issuer = issuer s, Audience = [audience s],
                    Subject = username, User = username, Groups = groups, UID = uid,
                    Extra = extra, Path = path, DomainName = domain,
                    TokenType = tokenType, SkipRefresh = False\<rparr>"
    and nbf: "NewNumericDate now * Second - 5 * Second \<le> now'"
    and exp: "now' < NewNumericDate (now + expiration s) * Second + 5 * Second"
  shows "Validate (issuer s) (audience s) (5 * Second) now' c = []"
  using nbf exp
  by (simp add: c Validate_def verifyExpiresAt_def verifyNotBefore_def verifyAudience_def
      verifyIssuer_def)

text \<open>
  Claim C3, as amended. Let a signer generate a token for a claims payload at the instant
  \<open>now\<close> (so one of its keys has passed the cool-off), and let the same signer validate
  it at an instant \<open>now'\<close> inside the validity window of the token: not earlier than five
  seconds before \<open>nbf\<close> and earlier than five seconds after \<open>exp\<close>, both in whole
  seconds. Then validation succeeds and returns the payload, the issuer and audience of
  the signer, and the three dates truncated to the second.
\<close>

theorem sign_validate_roundtrip:
  assumes gen: "GenerateToken hm s now0 now username groups uid extra path domain tokenType = Inr tok"
    and nbf: "NewNumericDate now * Second - 5 * Second \<le> now'"
    and exp: "now' < NewNumericDate (now + expiration s) * Second + 5 * Second"
  shows "ValidateToken hm s now' (Some tok) =
           Inr \<lparr>ExpiresAt = Some ((now + expiration s) div Second),
                IssuedAt = Some (now div Second), NotBefore = Some (now div Second),
                Issuer = issuer s, Audience = [audience s],
                Subject = username, User = username, Groups = groups, UID = uid,
                Extra = extra, Path = path, DomainName = domain,
                TokenType = tokenType, SkipRefresh = False\<rparr>"
proof -
  let ?c = "\<lparr>ExpiresAt = Some (NewNumericDate (now + expiration s)),
              IssuedAt = Some (NewNumericDate now), NotBefore = Some (NewNumericDate now),
              Issuer = issuer s, Audience = [audience s],
              Subject = username, User = username, Groups = groups, UID = uid,
              Extra = extra, Path = path, DomainName = domain,
              TokenType = tokenType, SkipRefresh = False\<rparr>"
  from generate_token_shape [OF gen] obtain kid key where
    ne: "kid \<noteq> ''''" and key: "index (signingKeys s) kid = Slice key"
    and h: "Header tok = \<lparr>h_alg = Some ''HS384'', h_kid = Some kid\<rparr>"
    and c: "TokenClaims tok = ?c"
    and sg: "Signature tok = hm key (Header tok, TokenClaims tok)"
    by blast
  have kf: "keyFunc s tok = Inr key"
    by (simp add: keyFunc_def h ne key HS384_registered)
  have v: "Validate (issuer s) (audience s) (5 * Second) now' (TokenClaims tok) = []"
    unfolding c using refl nbf exp by (rule validate_generated_claims)
  have "ParseWithClaims hm (keyFunc s) (issuer s) (audience s) [''HS384''] (5 * Second) now' (Some tok)
          = Inr tok"
    using sg by (simp add: ParseWithClaims_def h HS384_registered kf v)
  then show ?thesis
    by (simp add: ValidateToken_def c NewNumericDate_def)
qed

lemma signerPast_select:
  "getLatestKidAndKeyWithCoolOff signerPast (10 * Second) = (''1000'', Slice [65, 65])"
  by (simp add: getLatestKidAndKeyWithCoolOff_def signerPast_def signerA_def usable_step_def
      time_sub_def minDuration_def maxDuration_def Second_def index_def)

text \<open>
  Claim C3 as stated fails for a signer whose \<open>expiration\<close> is negative (as in the
  repository's test of expired tokens): its key has passed the cool-off, it generates a
  token, and validating that token at the same instant fails with \<open>ErrTokenExpired\<close>.
\<close>

theorem negative_expiration_token_is_expired:
  "passed_cool_off signerPast (10 * Second) ''1000''
   \<and> GenerateToken hmacA signerPast (10 * Second) (10 * Second) ''user'' [] ''uid'' [] '''' '''' ''''
       = Inr tokenPast
   \<and> ValidateToken hmacA signerPast (10 * Second) (Some tokenPast) = Inl ErrTokenExpired"
proof -
  have p: "passed_cool_off signerPast (10 * Second) ''1000''"
    by (simp add: passed_cool_off_def signerPast_def signerA_def time_sub_def minDuration_def
        maxDuration_def Second_def)
  have g: "GenerateToken hmacA signerPast (10 * Second) (10 * Second) ''user'' [] ''uid'' [] '''' '''' ''''
       = Inr tokenPast"
    by (simp add: GenerateToken_def signerPast_select Let_def tokenPast_def pastClaims_def
        NewNumericDate_def) (simp add: signerPast_def signerA_def Second_def)
  have kf: "keyFunc signerPast tokenPast = Inr [65, 65]"
    by (simp add: keyFunc_def tokenPast_def HS384_registered index_def signerPast_def signerA_def)
  have v: "Validate (issuer signerPast) (audience signerPast) (5 * Second) (10 * Second) pastClaims
      = [TokenExpired]"
    by (simp add: Validate_def verifyExpiresAt_def verifyNotBefore_def verifyAudience_def
        verifyIssuer_def pastClaims_def signerPast_def signerA_def Second_def)
  have "ParseWithClaims hmacA (keyFunc signerPast) (issuer signerPast) (audience signerPast) [''HS384'']
          (5 * Second) (10 * Second) (Some tokenPast) = Inl (TokenInvalidClaims [TokenExpired])"
    using kf v by (simp add: ParseWithClaims_def tokenPast_def HS384_registered hmacA_def)
  then have "ValidateToken hmacA signerPast (10 * Second) (Some tokenPast) = Inl ErrTokenExpired"
    by (simp add: ValidateToken_def)
  with p g show ?thesis by simp
qed

text \<open>
  An instance of the amended statement: a token generated at second 10 with a lifetime of
  one hour, validated at second 11.
\<close>

theorem sign_validate_roundtrip_witness:
  "\<exists>tok. GenerateToken hmacA signerA (10 * Second) (10 * Second) ''user'' [''g1'', ''g2''] ''uid''
            [] ''/path'' ''domain.com'' ''session'' = Inr tok \<and>
     ValidateToken hmacA signerA (11 * Second) (Some tok) =
       Inr \<lparr>ExpiresAt = Some 3610, IssuedAt = Some 10, NotBefore = Some 10,
            Issuer = ''iss'', Audience = [''aud''],
            Subject = ''user'', User = ''user'', Groups = [''g1'', ''g2''], UID = ''uid'',
            Extra = [], Path = ''/path'', DomainName = ''domain.com'',
            TokenType = ''session'', SkipRefresh = False\<rparr>"
proof -
  obtain tok where g: "GenerateToken hmacA signerA (10 * Second) (10 * Second) ''user'' [''g1'', ''g2'']
      ''uid'' [] ''/path'' ''domain.com'' ''session'' = Inr tok"
    by (simp add: GenerateToken_def signerA_select Let_def)
  have nbf: "NewNumericDate (10 * Second) * Second - 5 * Second \<le> 11 * Second"
    by (simp add: NewNumericDate_def Second_def)
  have exp: "11 * Second < NewNumericDate (10 * Second + expiration signerA) * Second + 5 * Second"
    by (simp add: NewNumericDate_def Second_def signerA_def)
  have e: "(10 * Second + expiration signerA) div Second = 3610" "10 * Second div Second = 10"
    by (simp_all add: Second_def signerA_def)
  from sign_validate_roundtrip [OF g nbf exp] e
  have "ValidateToken hmacA signerA (11 * Second) (Some tok) =
       Inr \<lparr>ExpiresAt = Some 3610, IssuedAt = Some 10, NotBefore = Some 10,
            Issuer = ''iss'', Audience = [''aud''],
            Subject = ''user'', User = ''user'', Groups = [''g1'', ''g2''], UID = ''uid'',
            Extra = [], Path = ''/path'', DomainName = ''domain.com'',
            TokenType = ''session'', SkipRefresh = False\<rparr>"
    by (simp add: signerA_def)
  with g show ?thesis by blast
qed

end
